theory Spec2Isabelle
  imports Main "HOL-Library.Word"
begin

unbundle bit_operations_syntax

section \<open>Bytes, errors and the term algebra of erlterms.py\<close>

text \<open>
  A Python 2 \<^verbatim>\<open>str\<close> is a sequence of 8-bit bytes. The exceptions the module can raise
  are the values of \<open>error\<close>; a \<^verbatim>\<open>ValueError\<close> keeps the constant part of its message,
  which is what tells the overflow, field-width, version, compression and tag errors
  apart. \<open>OutOfFuel\<close> is not a Python exception: it is the result of the bounded
  recursion below when its bound is used up, which does not happen in \<open>decode_term\<close>:
  that function satisfies the recursion equation of the source
  (lemma \<open>decode_term_unfold\<close>).
\<close>

type_synonym byte = "8 word"

type_synonym bytes = "byte list"

datatype error =
    IncompleteData
  | ValueError string
  | StructError
  | OverflowError
  | TypeError
  | ZlibError
  | PickleError
  | OutOfFuel

text \<open>
  The Python values the codec handles. \<open>PStr\<close> is a plain \<^verbatim>\<open>str\<close> (an Erlang binary),
  \<open>PAtom\<close> and \<open>PBitBinary\<close> are the two \<^verbatim>\<open>str\<close> subclasses, \<open>PUnicode\<close> is a
  \<^verbatim>\<open>unicode\<close> object given by its code points, \<open>PFloat\<close> is a float given by its
  IEEE-754 binary64 bit pattern, and \<open>PObject\<close> is any other host object, which only
  the pickle bridge can carry. The fields of \<open>PPid\<close>, \<open>PReference\<close> and
  \<open>PPort\<close> are (node, id, [serial,] creation). Dictionaries, whose encoding sorts the
  items by Python 2's cross-type ordering, are outside the modelled domain.
\<close>

datatype pyterm =
    PInt int
  | PFloat "64 word"
  | PAtom bytes
  | PBitBinary bytes int
  | PStr bytes
  | PUnicode "nat list"
  | PBool bool
  | PNone
  | PList "pyterm list"
  | PTuple "pyterm list"
  | PPid pyterm bytes bytes int
  | PReference pyterm bytes int
  | PPort pyterm bytes int
  | PExport pyterm pyterm pyterm
  | PObject nat

text \<open>The \<^verbatim>\<open>compressed\<close> argument of \<^verbatim>\<open>encode\<close>: a bool or an integer level.\<close>

datatype compression = CBool bool | CLevel int

text \<open>
  The external collaborators: \<^verbatim>\<open>cPickle.dumps\<close> and \<^verbatim>\<open>cPickle.loads\<close> (the fallback
  bridge), \<^verbatim>\<open>zlib.compress\<close>, a \<^verbatim>\<open>zlib.decompressobj\<close> run on a whole input (its
  output and its \<^verbatim>\<open>unused_data\<close>), and \<^verbatim>\<open>float\<close> applied to a string.
\<close>

record host =
  dumps :: "nat \<Rightarrow> bytes option"
  loads :: "pyterm \<Rightarrow> error + pyterm"
  compress :: "bytes \<Rightarrow> int \<Rightarrow> error + bytes"
  decompress :: "bytes \<Rightarrow> error + bytes \<times> bytes"
  float_of_ascii :: "bytes \<Rightarrow> error + 64 word"

section \<open>struct.pack and struct.unpack\<close>

definition be16 :: "nat \<Rightarrow> bytes" where
  "be16 n = [of_nat (n div 256), of_nat n]"

definition be32 :: "nat \<Rightarrow> bytes" where
  "be32 n = [of_nat (n div 16777216), of_nat (n div 65536), of_nat (n div 256), of_nat n]"

definition be64 :: "nat \<Rightarrow> bytes" where
  "be64 n = be32 (n div 4294967296) @ be32 n"

text \<open>The unsigned big-endian value of a byte string (\<^verbatim>\<open>>B\<close>, \<^verbatim>\<open>>H\<close>, \<^verbatim>\<open>>I\<close>).\<close>

definition be_val :: "bytes \<Rightarrow> nat" where
  "be_val bs = foldl (\<lambda>acc b. acc * 256 + unat b) 0 bs"

text \<open>\<^verbatim>\<open>unpack(">i", s)\<close>: the two's complement reading of four bytes.\<close>

definition unpack_i :: "bytes \<Rightarrow> int" where
  "unpack_i bs = (let u = be_val bs in if u \<ge> 2147483648 then int u - 4294967296 else int u)"

text \<open>\<^verbatim>\<open>pack(">i", n)\<close>, used for \<open>-2^31 \<le> n \<le> 2^31 - 1\<close> only.\<close>

definition pack_i :: "int \<Rightarrow> bytes" where
  "pack_i n = be32 (nat (n mod 4294967296))"

definition pack_H :: "nat \<Rightarrow> error + bytes" where
  "pack_H n = (if n \<le> 65535 then Inr (be16 n) else Inl StructError)"

definition pack_I :: "nat \<Rightarrow> error + bytes" where
  "pack_I n = (if n \<le> 4294967295 then Inr (be32 n) else Inl StructError)"

text \<open>\<^verbatim>\<open>"%c" % n\<close> and \<^verbatim>\<open>pack(">B", n)\<close> for an integer \<open>n\<close>.\<close>

definition chr_format :: "int \<Rightarrow> error + byte" where
  "chr_format n = (if 0 \<le> n \<and> n \<le> 255 then Inr (word_of_int n) else Inl OverflowError)"

definition pack_B :: "int \<Rightarrow> error + byte" where
  "pack_B n = (if 0 \<le> n \<and> n \<le> 255 then Inr (word_of_int n) else Inl StructError)"

text \<open>\<^verbatim>\<open>"".join(...)\<close> over encodings: the first failure, in order, is the result.\<close>

fun join :: "(error + bytes) list \<Rightarrow> error + bytes" where
  "join [] = Inr []"
| "join (r # rs) =
     (case r of Inl e \<Rightarrow> Inl e
      | Inr a \<Rightarrow> (case join rs of Inl e \<Rightarrow> Inl e | Inr b \<Rightarrow> Inr (a @ b)))"

section \<open>encode_term\<close>

definition python_pickle :: bytes where
  "python_pickle = [112, 121, 116, 104, 111, 110, 95, 112, 105, 99, 107, 108, 101]"

definition atom_true :: bytes where
  "atom_true = [116, 114, 117, 101]"

definition atom_false :: bytes where
  "atom_false = [102, 97, 108, 115, 101]"

definition atom_none :: bytes where
  "atom_none = [110, 111, 110, 101]"

text \<open>
  The loop \<^verbatim>\<open>while term > 0: bytes.append(term & 0xff); term >>= 8\<close>.
\<close>

function int_bytes :: "int \<Rightarrow> bytes" where
  "int_bytes n = (if n > 0 then word_of_int (n AND 255) # int_bytes (drop_bit 8 n) else [])"
  by pat_completeness auto

termination
  by (relation "measure nat") (auto simp: drop_bit_eq_div)

declare int_bytes.simps [simp del]

definition encode_int :: "int \<Rightarrow> error + bytes" where
  "encode_int n =
     (if 0 \<le> n \<and> n \<le> 255 then Inr [97, word_of_int n]
      else if -2147483648 \<le> n \<and> n \<le> 2147483647 then Inr (98 # pack_i n)
      else
        (let sign = (if n \<ge> 0 then 0 else 1);
             digits = int_bytes (if n \<ge> 0 then n else - n);
             len = length digits
         in if len \<le> 255 then Inr ([110, of_nat len, sign] @ digits)
            else if len \<le> 4294967295 then Inr (111 # be32 len @ [sign] @ digits)
            else Inl (ValueError ''invalid integer value'')))"

definition encode_atom :: "bytes \<Rightarrow> error + bytes" where
  "encode_atom s =
     (case pack_H (length s) of Inl e \<Rightarrow> Inl e | Inr len \<Rightarrow> Inr (100 # len @ s))"

definition encode_str :: "bytes \<Rightarrow> error + bytes" where
  "encode_str s =
     (if length s > 4294967295 then Inl (ValueError ''invalid binary length'')
      else Inr (109 # be32 (length s) @ s))"

definition tuple_header :: "nat \<Rightarrow> error + bytes" where
  "tuple_header arity =
     (if arity \<le> 255 then Inr [104, of_nat arity]
      else if arity \<le> 4294967295 then Inr (105 # be32 arity)
      else Inl (ValueError ''invalid tuple arity''))"

text \<open>
  The attempt at \<^verbatim>\<open>STRING_EXT\<close>: every element must be an \<^verbatim>\<open>int\<close> or \<^verbatim>\<open>long\<close> (a
  \<^verbatim>\<open>bool\<close> is one), then \<^verbatim>\<open>array('B', term)\<close> must accept every element. \<open>None\<close> is the
  caught \<^verbatim>\<open>TypeError\<close> or \<^verbatim>\<open>OverflowError\<close>.
\<close>

fun is_integer :: "pyterm \<Rightarrow> bool" where
  "is_integer (PInt n) = True"
| "is_integer (PBool b) = True"
| "is_integer t = False"

fun array_B_item :: "pyterm \<Rightarrow> byte option" where
  "array_B_item (PInt n) = (if 0 \<le> n \<and> n \<le> 255 then Some (word_of_int n) else None)"
| "array_B_item (PBool b) = Some (if b then 1 else 0)"
| "array_B_item t = None"

fun array_B :: "pyterm list \<Rightarrow> bytes option" where
  "array_B [] = Some []"
| "array_B (t # ts) =
     (case array_B_item t of None \<Rightarrow> None
      | Some b \<Rightarrow> (case array_B ts of None \<Rightarrow> None | Some bs \<Rightarrow> Some (b # bs)))"

definition string_bytes :: "pyterm list \<Rightarrow> bytes option" where
  "string_bytes ts = (if list_all is_integer ts then array_B ts else None)"

text \<open>
  The list branch, given the joined encodings of the elements (\<open>body\<close>), which the
  source computes only where it emits \<^verbatim>\<open>LIST_EXT\<close>.
\<close>

definition encode_list :: "pyterm list \<Rightarrow> (error + bytes) \<Rightarrow> error + bytes" where
  "encode_list ts body =
     (if ts = [] then Inr [106]
      else
        (let n = length ts;
             list_ext = (case body of Inl e \<Rightarrow> Inl e
                         | Inr b \<Rightarrow> Inr (108 # be32 n @ b @ [106]))
         in if n \<le> 65535 then
              (case string_bytes ts of
                 None \<Rightarrow> list_ext
               | Some bs \<Rightarrow> if length bs = n then Inr (107 # be16 n @ bs) else list_ext)
            else if n > 4294967295 then Inl (ValueError ''invalid list length'')
            else list_ext))"

fun encode_term :: "host \<Rightarrow> pyterm \<Rightarrow> error + bytes" where
  "encode_term h (PTuple ts) =
     (case tuple_header (length ts) of Inl e \<Rightarrow> Inl e
      | Inr header \<Rightarrow>
          (case join (map (encode_term h) ts) of Inl e \<Rightarrow> Inl e
           | Inr body \<Rightarrow> Inr (header @ body)))"
| "encode_term h (PList ts) = encode_list ts (join (map (encode_term h) ts))"
| "encode_term h (PUnicode cs) =
     (if cs = [] then Inr [106]
      else if length cs \<le> 65535 \<and> list_all (\<lambda>c. c \<le> 255) cs
        then Inr (107 # be16 (length cs) @ map of_nat cs)
      else encode_list (map (\<lambda>c. PInt (int c)) cs) (join (map (\<lambda>c. encode_int (int c)) cs)))"
| "encode_term h (PAtom s) = encode_atom s"
| "encode_term h (PBitBinary s bits) =
     (case pack_I (length s) of Inl e \<Rightarrow> Inl e
      | Inr len \<Rightarrow>
          (case pack_B bits of Inl e \<Rightarrow> Inl e | Inr b \<Rightarrow> Inr (77 # len @ [b] @ s)))"
| "encode_term h (PStr s) = encode_str s"
| "encode_term h (PBool b) = encode_atom (if b then atom_true else atom_false)"
| "encode_term h (PInt n) = encode_int n"
| "encode_term h (PFloat w) = Inr (70 # be64 (unat w))"
| "encode_term h PNone = Inr (100 # be16 4 @ atom_none)"
| "encode_term h (PPid node ident serial creation) =
     (case encode_term h node of Inl e \<Rightarrow> Inl e
      | Inr node' \<Rightarrow>
          if length serial \<noteq> 4 then Inl (ValueError ''invalid pid serial field'')
          else (case chr_format creation of Inl e \<Rightarrow> Inl e
                | Inr c \<Rightarrow> Inr (103 # node' @ ident @ serial @ [c])))"
| "encode_term h (PReference node ident creation) =
     (case encode_term h node of Inl e \<Rightarrow> Inl e
      | Inr node' \<Rightarrow>
          (case pack_H (length ident div 4) of Inl e \<Rightarrow> Inl e
           | Inr num \<Rightarrow>
               (case chr_format creation of Inl e \<Rightarrow> Inl e
                | Inr c \<Rightarrow> Inr (114 # num @ node' @ [c] @ ident))))"
| "encode_term h (PPort node ident creation) =
     (case encode_term h node of Inl e \<Rightarrow> Inl e
      | Inr node' \<Rightarrow>
          if length ident \<noteq> 4 then Inl (ValueError ''invalid port id field'')
          else (case chr_format creation of Inl e \<Rightarrow> Inl e
                | Inr c \<Rightarrow> Inr (102 # node' @ ident @ [c])))"
| "encode_term h (PExport m f a) =
     (case encode_term h m of Inl e \<Rightarrow> Inl e
      | Inr m' \<Rightarrow>
          (case encode_term h f of Inl e \<Rightarrow> Inl e
           | Inr f' \<Rightarrow>
               (case encode_term h a of Inl e \<Rightarrow> Inl e
                | Inr a' \<Rightarrow> Inr (113 # m' @ f' @ a'))))"
| "encode_term h (PObject obj) =
     (case dumps h obj of None \<Rightarrow> Inl (ValueError ''unsupported data type'')
      | Some data \<Rightarrow> join [tuple_header 2, encode_atom python_pickle, encode_str data])"

section \<open>decode_term\<close>

text \<open>
  The two \<^verbatim>\<open>while\<close> loops of \<^verbatim>\<open>decode_term\<close> (over a list's elements and over a
  tuple's): \<open>n\<close> terms are decoded one after the other, each from the tail the one
  before left, and collected in order. \<open>dec\<close> is the recursive call.
\<close>

fun decode_seq ::
  "(bytes \<Rightarrow> error + pyterm \<times> bytes) \<Rightarrow> nat \<Rightarrow> bytes \<Rightarrow> error + pyterm list \<times> bytes" where
  "decode_seq dec 0 tail = Inr ([], tail)"
| "decode_seq dec (Suc n) tail =
     (case dec tail of Inl e \<Rightarrow> Inl e
      | Inr (t, tail') \<Rightarrow>
          (case decode_seq dec n tail' of Inl e \<Rightarrow> Inl e
           | Inr (lst, tail'') \<Rightarrow> Inr (t # lst, tail'')))"

text \<open>
  \<^verbatim>\<open>lst[0] == Atom("python_pickle")\<close>: \<^verbatim>\<open>Atom\<close> is a \<^verbatim>\<open>str\<close>, so the comparison is
  the one of \<^verbatim>\<open>str\<close>, which holds for every string object with these characters.
\<close>

fun py_eq_str :: "pyterm \<Rightarrow> bytes \<Rightarrow> bool" where
  "py_eq_str (PAtom s) x = (s = x)"
| "py_eq_str (PStr s) x = (s = x)"
| "py_eq_str (PBitBinary s bits) x = (s = x)"
| "py_eq_str (PUnicode cs) x = (cs = map unat x)"
| "py_eq_str t x = False"

definition decode_small_integer :: "bytes \<Rightarrow> error + pyterm \<times> bytes" where
  "decode_small_integer tail =
     (case tail of [] \<Rightarrow> Inl IncompleteData | b # rest \<Rightarrow> Inr (PInt (uint b), rest))"

definition decode_integer :: "bytes \<Rightarrow> error + pyterm \<times> bytes" where
  "decode_integer tail =
     (if length tail < 4 then Inl IncompleteData
      else Inr (PInt (unpack_i (take 4 tail)), drop 4 tail))"

definition decode_string :: "bytes \<Rightarrow> error + pyterm \<times> bytes" where
  "decode_string tail =
     (if length tail < 2 then Inl IncompleteData
      else
        (let len = be_val (take 2 tail); tail = drop 2 tail
         in if length tail < len then Inl IncompleteData
            else Inr (PList (map (\<lambda>b. PInt (uint b)) (take len tail)), drop len tail)))"

definition decode_list ::
  "(bytes \<Rightarrow> error + pyterm \<times> bytes) \<Rightarrow> bytes \<Rightarrow> error + pyterm \<times> bytes" where
  "decode_list dec tail =
     (if length tail < 4 then Inl IncompleteData
      else
        (case decode_seq dec (be_val (take 4 tail)) (drop 4 tail) of Inl e \<Rightarrow> Inl e
         | Inr (lst, tail') \<Rightarrow>
             (case dec tail' of Inl e \<Rightarrow> Inl e
              | Inr (ignored, tail'') \<Rightarrow> Inr (PList lst, tail''))))"

definition decode_binary :: "bytes \<Rightarrow> error + pyterm \<times> bytes" where
  "decode_binary tail =
     (if length tail < 4 then Inl IncompleteData
      else
        (let len = be_val (take 4 tail); tail = drop 4 tail
         in if length tail < len then Inl IncompleteData
            else Inr (PStr (take len tail), drop len tail)))"

definition decode_atom :: "bytes \<Rightarrow> error + pyterm \<times> bytes" where
  "decode_atom tail =
     (if length tail < 2 then Inl IncompleteData
      else
        (let len = be_val (take 2 tail); tail = drop 2 tail
         in if length tail < len then Inl IncompleteData
            else
              (let name = take len tail; tail = drop len tail
               in if name = atom_true then Inr (PBool True, tail)
                  else if name = atom_false then Inr (PBool False, tail)
                  else if name = atom_none then Inr (PNone, tail)
                  else if length name > 255 then Inl (ValueError ''invalid atom length'')
                  else Inr (PAtom name, tail))))"

definition decode_tuple ::
  "host \<Rightarrow> (bytes \<Rightarrow> error + pyterm \<times> bytes) \<Rightarrow> byte \<Rightarrow> bytes \<Rightarrow> error + pyterm \<times> bytes" where
  "decode_tuple h dec tag tail =
     (case (if tag = 104
            then (case tail of [] \<Rightarrow> Inl IncompleteData | b # rest \<Rightarrow> Inr (unat b, rest))
            else if length tail < 4 then Inl IncompleteData
            else Inr (be_val (take 4 tail), drop 4 tail)) of
        Inl e \<Rightarrow> Inl e
      | Inr (arity, tail) \<Rightarrow>
          (case decode_seq dec arity tail of Inl e \<Rightarrow> Inl e
           | Inr (lst, tail) \<Rightarrow>
               if length lst = 2 \<and> py_eq_str (lst ! 0) python_pickle
               then (case loads h (lst ! 1) of Inl e \<Rightarrow> Inl e | Inr obj \<Rightarrow> Inr (obj, tail))
               else Inr (PTuple lst, tail)))"

definition decode_new_float :: "bytes \<Rightarrow> error + pyterm \<times> bytes" where
  "decode_new_float tail =
     (if length (take 8 tail) \<noteq> 8 then Inl StructError
      else Inr (PFloat (of_nat (be_val (take 8 tail))), drop 8 tail))"

definition decode_float :: "host \<Rightarrow> bytes \<Rightarrow> error + pyterm \<times> bytes" where
  "decode_float h tail =
     (case float_of_ascii h (takeWhile (\<lambda>b. b \<noteq> 0) (take 31 tail)) of Inl e \<Rightarrow> Inl e
      | Inr w \<Rightarrow> Inr (PFloat w, drop 31 tail))"

text \<open>
  \<^verbatim>\<open>tail[length-1::-1]\<close> is the first \<open>length\<close> bytes reversed, but for
  \<open>length = 0\<close> the slice starts at index \<open>-1\<close> and is the whole tail reversed.
\<close>

definition decode_big :: "byte \<Rightarrow> bytes \<Rightarrow> error + pyterm \<times> bytes" where
  "decode_big tag tail =
     (case (if tag = 110
            then if length tail < 2 then Inl IncompleteData
                 else Inr (unat (tail ! 0), tail ! 1, drop 2 tail)
            else if length tail < 5 then Inl IncompleteData
                 else Inr (be_val (take 4 tail), tail ! 4, drop 5 tail)) of
        Inl e \<Rightarrow> Inl e
      | Inr (len, sign, tail) \<Rightarrow>
          if length tail < len then Inl IncompleteData
          else
            (let digits = (if len = 0 then rev tail else rev (take len tail));
                 n = foldl (\<lambda>n i. push_bit 8 n OR uint i) 0 digits
             in Inr (PInt (if sign \<noteq> 0 then - n else n), drop len tail)))"

definition decode_bit_binary :: "bytes \<Rightarrow> error + pyterm \<times> bytes" where
  "decode_bit_binary tail =
     (if length tail < 5 then Inl IncompleteData
      else
        (let len = be_val (take 4 tail); bits = uint (tail ! 4); tail = drop 5 tail
         in if length tail < len then Inl IncompleteData
            else Inr (PBitBinary (take len tail) bits, drop len tail)))"

definition decode_pid ::
  "(bytes \<Rightarrow> error + pyterm \<times> bytes) \<Rightarrow> bytes \<Rightarrow> error + pyterm \<times> bytes" where
  "decode_pid dec tail =
     (case dec tail of Inl e \<Rightarrow> Inl e
      | Inr (node, tail) \<Rightarrow>
          if length tail < 9 then Inl IncompleteData
          else Inr (PPid node (take 4 tail) (take 4 (drop 4 tail)) (uint (tail ! 8)),
                    drop 9 tail))"

definition decode_reference ::
  "(bytes \<Rightarrow> error + pyterm \<times> bytes) \<Rightarrow> bytes \<Rightarrow> error + pyterm \<times> bytes" where
  "decode_reference dec tail =
     (case dec tail of Inl e \<Rightarrow> Inl e
      | Inr (node, tail) \<Rightarrow>
          if length tail < 5 then Inl IncompleteData
          else Inr (PReference node (take 4 tail) (uint (tail ! 4)), drop 5 tail))"

definition decode_port ::
  "(bytes \<Rightarrow> error + pyterm \<times> bytes) \<Rightarrow> bytes \<Rightarrow> error + pyterm \<times> bytes" where
  "decode_port dec tail =
     (case dec tail of Inl e \<Rightarrow> Inl e
      | Inr (node, tail) \<Rightarrow>
          if length tail < 5 then Inl IncompleteData
          else Inr (PPort node (take 4 tail) (uint (tail ! 4)), drop 5 tail))"

definition decode_new_reference ::
  "(bytes \<Rightarrow> error + pyterm \<times> bytes) \<Rightarrow> bytes \<Rightarrow> error + pyterm \<times> bytes" where
  "decode_new_reference dec tail =
     (if length tail < 2 then Inl IncompleteData
      else
        (let len = be_val (take 2 tail) * 4
         in case dec (drop 2 tail) of Inl e \<Rightarrow> Inl e
            | Inr (node, tail) \<Rightarrow>
                if length tail < 1 + len then Inl IncompleteData
                else Inr (PReference node (take len (drop 1 tail)) (uint (tail ! 0)),
                          drop (len + 1) tail)))"

definition decode_export ::
  "(bytes \<Rightarrow> error + pyterm \<times> bytes) \<Rightarrow> bytes \<Rightarrow> error + pyterm \<times> bytes" where
  "decode_export dec tail =
     (case dec tail of Inl e \<Rightarrow> Inl e
      | Inr (module, tail) \<Rightarrow>
          (case dec tail of Inl e \<Rightarrow> Inl e
           | Inr (function, tail) \<Rightarrow>
               (case dec tail of Inl e \<Rightarrow> Inl e
                | Inr (arity, tail) \<Rightarrow> Inr (PExport module function arity, tail))))"

text \<open>
  One call of \<^verbatim>\<open>decode_term\<close>: the dispatch on the tag byte, in the order of the
  source, with \<open>dec\<close> for the recursive calls.
\<close>

definition decode_body ::
  "host \<Rightarrow> (bytes \<Rightarrow> error + pyterm \<times> bytes) \<Rightarrow> bytes \<Rightarrow> error + pyterm \<times> bytes" where
  "decode_body h dec string =
     (case string of
        [] \<Rightarrow> Inl IncompleteData
      | tag # tail \<Rightarrow>
          if tag = 97 then decode_small_integer tail
          else if tag = 98 then decode_integer tail
          else if tag = 106 then Inr (PList [], tail)
          else if tag = 107 then decode_string tail
          else if tag = 108 then decode_list dec tail
          else if tag = 109 then decode_binary tail
          else if tag = 100 then decode_atom tail
          else if tag = 104 \<or> tag = 105 then decode_tuple h dec tag tail
          else if tag = 70 then decode_new_float tail
          else if tag = 99 then decode_float h tail
          else if tag = 110 \<or> tag = 111 then decode_big tag tail
          else if tag = 77 then decode_bit_binary tail
          else if tag = 103 then decode_pid dec tail
          else if tag = 101 then decode_reference dec tail
          else if tag = 102 then decode_port dec tail
          else if tag = 114 then decode_new_reference dec tail
          else if tag = 113 then decode_export dec tail
          else Inl (ValueError ''unsupported data tag''))"

text \<open>
  The recursion of \<^verbatim>\<open>decode_term\<close>, bounded in depth. Every recursive call is on a
  string shorter than the caller's, so a bound above the length of the input is never
  used up: \<open>decode_term\<close> is the function the recursion defines
  (\<open>decode_term_unfold\<close>).
\<close>

fun decode_term_fuel :: "host \<Rightarrow> nat \<Rightarrow> bytes \<Rightarrow> error + pyterm \<times> bytes" where
  "decode_term_fuel h 0 string = Inl OutOfFuel"
| "decode_term_fuel h (Suc d) string = decode_body h (decode_term_fuel h d) string"

definition decode_term :: "host \<Rightarrow> bytes \<Rightarrow> error + pyterm \<times> bytes" where
  "decode_term h string = decode_term_fuel h (Suc (length string)) string"

section \<open>decode and encode\<close>

definition decode :: "host \<Rightarrow> bytes \<Rightarrow> error + pyterm \<times> bytes" where
  "decode h string =
     (case string of
        [] \<Rightarrow> Inl IncompleteData
      | version # rest \<Rightarrow>
          if version \<noteq> 131 then Inl (ValueError ''unknown protocol version'')
          else if take 1 rest = [80] then
            (if length string < 6 then Inl IncompleteData
             else
               (case decompress h (drop 6 string) of Inl e \<Rightarrow> Inl e
                | Inr (term_string, unused_data) \<Rightarrow>
                    if length term_string \<noteq> be_val (take 4 (drop 2 string))
                    then Inl (ValueError ''invalid compressed tag'')
                    else (case decode_term h term_string of Inl e \<Rightarrow> Inl e
                          | Inr (t, ignored) \<Rightarrow> Inr (t, unused_data))))
          else decode_term h rest)"

fun truthy :: "compression \<Rightarrow> bool" where
  "truthy (CBool b) = b"
| "truthy (CLevel n) = (n \<noteq> 0)"

text \<open>The level handed to \<^verbatim>\<open>zlib.compress\<close>: 6 for \<^verbatim>\<open>True\<close>.\<close>

fun level :: "compression \<Rightarrow> int" where
  "level (CBool b) = (if b then 6 else 0)"
| "level (CLevel n) = n"

definition encode :: "host \<Rightarrow> pyterm \<Rightarrow> compression \<Rightarrow> error + bytes" where
  "encode h t compressed =
     (case encode_term h t of Inl e \<Rightarrow> Inl e
      | Inr encoded_term \<Rightarrow>
          if truthy compressed then
            (case compress h encoded_term (level compressed) of Inl e \<Rightarrow> Inl e
             | Inr zlib_term \<Rightarrow>
                 if length zlib_term + 5 \<le> length encoded_term then
                   (case pack_I (length encoded_term) of Inl e \<Rightarrow> Inl e
                    | Inr size_field \<Rightarrow> Inr ([131, 80] @ size_field @ zlib_term))
                 else Inr (131 # encoded_term))
          else Inr (131 # encoded_term))"

section \<open>Notions for the statements about the codec\<close>

text \<open>
  What the theorems below are stated with: the little-endian value of a digit string,
  well-formed terms, the value a term decodes to, sample inputs with a sample host, and
  two predicates on decoders used to show that the bounded recursion above is the
  recursion of the source: \<open>shrinks\<close> (the tail returned is no longer than the input)
  and \<open>agree\<close> (two decoders coincide on the inputs up to a length).
\<close>

definition shrinks :: "(bytes \<Rightarrow> error + pyterm \<times> bytes) \<Rightarrow> bool" where
  "shrinks dec \<longleftrightarrow> (\<forall>s v s'. dec s = Inr (v, s') \<longrightarrow> length s' \<le> length s)"

definition agree ::
  "nat \<Rightarrow> (bytes \<Rightarrow> error + pyterm \<times> bytes) \<Rightarrow> (bytes \<Rightarrow> error + pyterm \<times> bytes) \<Rightarrow> bool" where
  "agree n dec1 dec2 \<longleftrightarrow> (\<forall>x. length x \<le> n \<longrightarrow> dec1 x = dec2 x)"

text \<open>The little-endian value of a digit string.\<close>

fun le_val :: "bytes \<Rightarrow> int" where
  "le_val [] = 0"
| "le_val (b # bs) = uint b + 256 * le_val bs"

text \<open>
  For closed instances: a host whose pickle bridge refuses every input (as
  \<^verbatim>\<open>cPickle.loads("")\<close> does, with \<^verbatim>\<open>EOFError\<close>) and whose zlib knows one payload,
  the encoding of a list of fifteen zeros, for which \<open>sample_deflated\<close> is the
  13-byte stream \<^verbatim>\<open>zlib.compress(payload, 6)\<close> returns (zlib 1.2.13).
\<close>

definition sample_payload :: bytes where
  "sample_payload = [107, 0, 15, 0, 0, 0, 0, 0, 0, 0, 0, 0, 0, 0, 0, 0, 0, 0]"

definition sample_deflated :: bytes where
  "sample_deflated = [120, 156, 203, 102, 224, 103, 64, 5, 0, 8, 136, 0, 123]"

definition sample_host :: host where
  "sample_host =
     \<lparr>dumps = (\<lambda>obj. None),
      loads = (\<lambda>t. Inl PickleError),
      compress = (\<lambda>s lvl. if s = sample_payload \<and> lvl = 6 then Inr sample_deflated
                           else Inl ZlibError),
      decompress = (\<lambda>s. if take 13 s = sample_deflated then Inr (sample_payload, drop 13 s)
                         else Inl ZlibError),
      float_of_ascii = (\<lambda>s. Inl (ValueError ''invalid literal for float()''))\<rparr>"

definition fifteen_zeros :: pyterm where
  "fifteen_zeros = PList [PInt 0, PInt 0, PInt 0, PInt 0, PInt 0, PInt 0, PInt 0, PInt 0,
     PInt 0, PInt 0, PInt 0, PInt 0, PInt 0, PInt 0, PInt 0]"

text \<open>
  The list elements in the statement about \<^verbatim>\<open>STRING_EXT\<close>, and the byte each one
  stands for: a Boolean (\<open>True\<close> is 1, \<open>False\<close> is 0) or an integer in
  \<open>[0, 255]\<close>.
\<close>

fun is_byte_element :: "pyterm \<Rightarrow> bool" where
  "is_byte_element (PBool b) = True"
| "is_byte_element (PInt n) = (0 \<le> n \<and> n \<le> 255)"
| "is_byte_element t = False"

fun element_byte :: "pyterm \<Rightarrow> byte" where
  "element_byte (PBool b) = (if b then 1 else 0)"
| "element_byte (PInt n) = word_of_int n"
| "element_byte t = 0"

text \<open>
  The 2-tuple \<open>(Atom("python_pickle"), "")\<close> and its uncompressed frame.
\<close>

definition pickle_tuple :: pyterm where
  "pickle_tuple = PTuple [PAtom python_pickle, PStr []]"

definition pickle_frame :: bytes where
  "pickle_frame = [131, 104, 2, 100, 0, 13] @ python_pickle @ [109, 0, 0, 0, 0]"

text \<open>
  The invariants of the value classes that the encoder does not check itself: an atom
  has at most 255 bytes (the constructor \<^verbatim>\<open>Atom\<close> refuses more), the id of a Pid has
  four bytes, the id of a Reference is a whole number of four-byte words.
\<close>

fun wf_term :: "pyterm \<Rightarrow> bool" where
  "wf_term (PAtom s) = (length s \<le> 255)"
| "wf_term (PList ts) = list_all wf_term ts"
| "wf_term (PTuple ts) = list_all wf_term ts"
| "wf_term (PPid node ident serial creation) = (wf_term node \<and> length ident = 4)"
| "wf_term (PReference node ident creation) = (wf_term node \<and> length ident mod 4 = 0)"
| "wf_term (PPort node ident creation) = wf_term node"
| "wf_term (PExport m f a) = (wf_term m \<and> wf_term f \<and> wf_term a)"
| "wf_term t = True"

text \<open>The first failure of a sequence of results, or all their values.\<close>

fun sequence :: "(error + 'a) list \<Rightarrow> error + 'a list" where
  "sequence [] = Inr []"
| "sequence (r # rs) =
     (case r of Inl e \<Rightarrow> Inl e
      | Inr a \<Rightarrow> (case sequence rs of Inl e \<Rightarrow> Inl e | Inr as \<Rightarrow> Inr (a # as)))"

definition atom_image :: "bytes \<Rightarrow> pyterm" where
  "atom_image s =
     (if s = atom_true then PBool True
      else if s = atom_false then PBool False
      else if s = atom_none then PNone
      else PAtom s)"

text \<open>
  \<open>decoded h t\<close> is the value the decoder builds from the encoding of \<open>t\<close>
  (lemma \<open>decode_encoded\<close>): atoms named true, false and none become Booleans and
  \<^verbatim>\<open>None\<close>, a unicode string becomes the list of its code points, a list that went out
  as \<^verbatim>\<open>STRING_EXT\<close> comes back as integers, and a pair headed by \<open>python_pickle\<close> and
  a host object go through the bridge.
\<close>

fun decoded :: "host \<Rightarrow> pyterm \<Rightarrow> error + pyterm" where
  "decoded h (PInt n) = Inr (PInt n)"
| "decoded h (PFloat w) = Inr (PFloat w)"
| "decoded h (PAtom s) = Inr (atom_image s)"
| "decoded h (PBitBinary s bits) = Inr (PBitBinary s bits)"
| "decoded h (PStr s) = Inr (PStr s)"
| "decoded h (PUnicode cs) = Inr (PList (map (\<lambda>c. PInt (int c)) cs))"
| "decoded h (PBool b) = Inr (PBool b)"
| "decoded h PNone = Inr PNone"
| "decoded h (PList ts) =
     (case (if length ts \<le> 65535 then string_bytes ts else None) of
        Some bs \<Rightarrow> Inr (PList (map (\<lambda>b. PInt (uint b)) bs))
      | None \<Rightarrow>
          (case sequence (map (decoded h) ts) of Inl e \<Rightarrow> Inl e
           | Inr vs \<Rightarrow> Inr (PList vs)))"
| "decoded h (PTuple ts) =
     (case sequence (map (decoded h) ts) of Inl e \<Rightarrow> Inl e
      | Inr vs \<Rightarrow>
          if length vs = 2 \<and> py_eq_str (vs ! 0) python_pickle then loads h (vs ! 1)
          else Inr (PTuple vs))"
| "decoded h (PPid node ident serial creation) =
     (case decoded h node of Inl e \<Rightarrow> Inl e
      | Inr node' \<Rightarrow> Inr (PPid node' ident serial creation))"
| "decoded h (PReference node ident creation) =
     (case decoded h node of Inl e \<Rightarrow> Inl e
      | Inr node' \<Rightarrow> Inr (PReference node' ident creation))"
| "decoded h (PPort node ident creation) =
     (case decoded h node of Inl e \<Rightarrow> Inl e
      | Inr node' \<Rightarrow> Inr (PPort node' ident creation))"
| "decoded h (PExport m f a) =
     (case decoded h m of Inl e \<Rightarrow> Inl e
      | Inr m' \<Rightarrow>
          (case decoded h f of Inl e \<Rightarrow> Inl e
           | Inr f' \<Rightarrow>
               (case decoded h a of Inl e \<Rightarrow> Inl e
                | Inr a' \<Rightarrow> Inr (PExport m' f' a'))))"
| "decoded h (PObject obj) =
     (case dumps h obj of None \<Rightarrow> Inl (ValueError ''unsupported data type'')
      | Some data \<Rightarrow> loads h (PStr data))"

text \<open>A result of the decoder that leaves the tail \<open>s\<close>.\<close>

definition attach :: "error + pyterm \<Rightarrow> bytes \<Rightarrow> error + pyterm \<times> bytes" where
  "attach r s = (case r of Inl e \<Rightarrow> Inl e | Inr v \<Rightarrow> Inr (v, s))"

definition roundtrips :: "host \<Rightarrow> pyterm \<Rightarrow> bool" where
  "roundtrips h t \<longleftrightarrow>
     (\<forall>bs s. encode_term h t = Inr bs \<longrightarrow> decode_term h (bs @ s) = attach (decoded h t) s)"

text \<open>
  The terms that come back unchanged: built from integers, floats, atoms not named
  true, false or none, bit binaries, binaries, lists, tuples other than a pair whose
  first element is the string \<open>python_pickle\<close> (as an atom, a binary or a bit
  binary), Pids, References, Ports and Exports.
\<close>

fun native :: "pyterm \<Rightarrow> bool" where
  "native (PInt n) = True"
| "native (PFloat w) = True"
| "native (PAtom s) = (s \<noteq> atom_true \<and> s \<noteq> atom_false \<and> s \<noteq> atom_none)"
| "native (PBitBinary s bits) = True"
| "native (PStr s) = True"
| "native (PUnicode cs) = False"
| "native (PBool b) = False"
| "native PNone = False"
| "native (PList ts) = list_all native ts"
| "native (PTuple ts) =
     (list_all native ts \<and> \<not> (length ts = 2 \<and> py_eq_str (ts ! 0) python_pickle))"
| "native (PPid node ident serial creation) = native node"
| "native (PReference node ident creation) = native node"
| "native (PPort node ident creation) = native node"
| "native (PExport m f a) = (native m \<and> native f \<and> native a)"
| "native (PObject obj) = False"

text \<open>
  A term with an atom, integers, a list that does not fit \<^verbatim>\<open>STRING_EXT\<close> and a Pid,
  and its uncompressed frame.
\<close>

definition sample_term :: pyterm where
  "sample_term = PTuple [PAtom [111, 107], PInt 42, PList [PInt 1, PInt 300],
     PPid (PAtom [110]) [0, 0, 0, 1] [0, 0, 0, 2] 3]"

definition sample_frame :: bytes where
  "sample_frame = [131, 104, 4, 100, 0, 2, 111, 107, 97, 42,
     108, 0, 0, 0, 2, 97, 1, 98, 0, 0, 1, 44, 106,
     103, 100, 0, 1, 110, 0, 0, 0, 1, 0, 0, 0, 2, 3]"

text \<open>
  The value of a decoded tuple with the elements \<open>vs\<close>: the tuple, or for a pair headed
  by the string \<open>python_pickle\<close> what the bridge makes of the second element.
\<close>

definition tuple_value :: "host \<Rightarrow> pyterm list \<Rightarrow> error + pyterm" where
  "tuple_value h vs =
     (if length vs = 2 \<and> py_eq_str (vs ! 0) python_pickle then loads h (vs ! 1)
      else Inr (PTuple vs))"

text \<open>
  The table of tags of the external term format, independently of the decoder:
  \<open>wire h p v\<close> says that the byte string \<open>p\<close> is exactly one encoded term and that
  it stands for the value \<open>v\<close>; \<open>wire_seq h ps vs\<close> says that \<open>ps\<close> is the
  concatenation of the encodings of the values \<open>vs\<close>. Every length field holds the
  length of what follows it, the fixed-width fields have their widths, atoms have at
  most 255 bytes, the text of a legacy float is one that \<^verbatim>\<open>float\<close> accepts, a pair
  headed by \<open>python_pickle\<close> is one that the bridge accepts, and a big integer has at
  least one digit.
\<close>

inductive wire :: "host \<Rightarrow> bytes \<Rightarrow> pyterm \<Rightarrow> bool"
  and wire_seq :: "host \<Rightarrow> bytes \<Rightarrow> pyterm list \<Rightarrow> bool"
  for h :: host
where
  small_integer_ext: "wire h [97, b] (PInt (uint b))"
| integer_ext: "length bs = 4 \<Longrightarrow> wire h (98 # bs) (PInt (unpack_i bs))"
| new_float_ext: "length bs = 8 \<Longrightarrow> wire h (70 # bs) (PFloat (of_nat (be_val bs)))"
| float_ext:
    "length bs = 31 \<Longrightarrow> float_of_ascii h (takeWhile (\<lambda>b. b \<noteq> 0) bs) = Inr w \<Longrightarrow>
     wire h (99 # bs) (PFloat w)"
| atom_ext:
    "length name \<le> 255 \<Longrightarrow> wire h (100 # be16 (length name) @ name) (atom_image name)"
| nil_ext: "wire h [106] (PList [])"
| string_ext:
    "length bs \<le> 65535 \<Longrightarrow>
     wire h (107 # be16 (length bs) @ bs) (PList (map (\<lambda>b. PInt (uint b)) bs))"
| list_ext:
    "length vs \<le> 4294967295 \<Longrightarrow> wire_seq h body vs \<Longrightarrow> wire h tlb tv \<Longrightarrow>
     wire h (108 # be32 (length vs) @ body @ tlb) (PList vs)"
| binary_ext:
    "length bs \<le> 4294967295 \<Longrightarrow> wire h (109 # be32 (length bs) @ bs) (PStr bs)"
| small_tuple_ext:
    "length vs \<le> 255 \<Longrightarrow> wire_seq h body vs \<Longrightarrow> tuple_value h vs = Inr v \<Longrightarrow>
     wire h (104 # of_nat (length vs) # body) v"
| large_tuple_ext:
    "length vs \<le> 4294967295 \<Longrightarrow> wire_seq h body vs \<Longrightarrow> tuple_value h vs = Inr v \<Longrightarrow>
     wire h (105 # be32 (length vs) @ body) v"
| small_big_ext:
    "digits \<noteq> [] \<Longrightarrow> length digits \<le> 255 \<Longrightarrow>
     wire h (110 # of_nat (length digits) # sign # digits)
       (PInt (if sign \<noteq> 0 then - le_val digits else le_val digits))"
| large_big_ext:
    "digits \<noteq> [] \<Longrightarrow> length digits \<le> 4294967295 \<Longrightarrow>
     wire h (111 # be32 (length digits) @ sign # digits)
       (PInt (if sign \<noteq> 0 then - le_val digits else le_val digits))"
| bit_binary_ext:
    "length bs \<le> 4294967295 \<Longrightarrow>
     wire h (77 # be32 (length bs) @ bits # bs) (PBitBinary bs (uint bits))"
| pid_ext:
    "wire h nb node \<Longrightarrow> length ident = 4 \<Longrightarrow> length serial = 4 \<Longrightarrow>
     wire h (103 # nb @ ident @ serial @ [c]) (PPid node ident serial (uint c))"
| reference_ext:
    "wire h nb node \<Longrightarrow> length ident = 4 \<Longrightarrow>
     wire h (101 # nb @ ident @ [c]) (PReference node ident (uint c))"
| port_ext:
    "wire h nb node \<Longrightarrow> length ident = 4 \<Longrightarrow>
     wire h (102 # nb @ ident @ [c]) (PPort node ident (uint c))"
| new_reference_ext:
    "wire h nb node \<Longrightarrow> length ident = 4 * k \<Longrightarrow> k \<le> 65535 \<Longrightarrow>
     wire h (114 # be16 k @ nb @ c # ident) (PReference node ident (uint c))"
| export_ext:
    "wire h mb m \<Longrightarrow> wire h fb f \<Longrightarrow> wire h ab a \<Longrightarrow>
     wire h (113 # mb @ fb @ ab) (PExport m f a)"
| seq_nil: "wire_seq h [] []"
| seq_cons: "wire h p v \<Longrightarrow> wire_seq h ps vs \<Longrightarrow> wire_seq h (p @ ps) (v # vs)"

text \<open>
  A deflate stream \<open>z\<close> of \<open>p\<close>: inflating it, whatever follows it, yields \<open>p\<close> and
  leaves what follows as \<^verbatim>\<open>unused_data\<close>.
\<close>

definition inflates :: "host \<Rightarrow> bytes \<Rightarrow> bytes \<Rightarrow> bool" where
  "inflates h z p \<longleftrightarrow> (\<forall>s. decompress h (z @ s) = Inr (p, s))"

text \<open>
  The two framings: the version byte and one encoded term, or the version byte, the
  sub-tag 80, the length of the payload and a deflate stream of it.
\<close>

inductive valid_frame :: "host \<Rightarrow> bytes \<Rightarrow> pyterm \<Rightarrow> bool" for h :: host where
  uncompressed: "wire h p v \<Longrightarrow> valid_frame h (131 # p) v"
| compressed:
    "wire h p v \<Longrightarrow> length p \<le> 4294967295 \<Longrightarrow> inflates h z p \<Longrightarrow>
     valid_frame h (131 # 80 # be32 (length p) @ z) v"

section \<open>The bounded recursion is the recursion of the source\<close>

text \<open>
  Every branch of \<open>decode_body\<close> returns a suffix of its input's tail, so the
  recursive calls are on strictly shorter strings; hence the result does not depend on
  the bound once it is above the length of the input, and \<open>decode_term\<close> satisfies the
  recursion equation of the source function.
\<close>

lemma shrinksD: "shrinks dec \<Longrightarrow> dec s = Inr (v, s') \<Longrightarrow> length s' \<le> length s"
  by (auto simp: shrinks_def)

lemma agreeD: "agree n dec1 dec2 \<Longrightarrow> length x \<le> n \<Longrightarrow> dec1 x = dec2 x"
  by (auto simp: agree_def)

lemma agree_mono: "agree n dec1 dec2 \<Longrightarrow> m \<le> n \<Longrightarrow> agree m dec1 dec2"
  by (auto simp: agree_def)

lemma decode_seq_shrinks:
  "shrinks dec \<Longrightarrow> decode_seq dec n s = Inr (vs, s') \<Longrightarrow> length s' \<le> length s"
proof (induction n arbitrary: s vs s')
  case 0
  then show ?case by simp
next
  case (Suc n)
  from Suc.prems(2) obtain v s1 vs1 where
    a: "dec s = Inr (v, s1)" and b: "decode_seq dec n s1 = Inr (vs1, s')"
    by (auto split: sum.splits prod.splits)
  from Suc.IH [OF Suc.prems(1) b] shrinksD [OF Suc.prems(1) a] show ?case by simp
qed

lemma decode_seq_agree:
  "shrinks dec1 \<Longrightarrow> agree (length s) dec1 dec2 \<Longrightarrow> decode_seq dec1 n s = decode_seq dec2 n s"
proof (induction n arbitrary: s)
  case 0
  then show ?case by simp
next
  case (Suc n)
  have eq: "dec1 s = dec2 s" using agreeD [OF Suc.prems(2)] by simp
  show ?case
  proof (cases "dec1 s")
    case (Inl e)
    then show ?thesis using eq by simp
  next
    case (Inr r)
    obtain v s1 where r: "r = (v, s1)" by (cases r)
    have "length s1 \<le> length s" using shrinksD [OF Suc.prems(1)] Inr r by simp
    then have "agree (length s1) dec1 dec2" using agree_mono [OF Suc.prems(2)] by simp
    from Suc.IH [OF Suc.prems(1) this] show ?thesis using Inr r eq by simp
  qed
qed

lemma decode_list_shrinks:
  assumes "shrinks dec" and "decode_list dec s = Inr (v, s')"
  shows "length s' \<le> length s"
proof -
  from assms(2) obtain lst s1 ign where
    a: "decode_seq dec (be_val (take 4 s)) (drop 4 s) = Inr (lst, s1)" and
    b: "dec s1 = Inr (ign, s')"
    by (auto simp: decode_list_def split: if_splits sum.splits prod.splits)
  from decode_seq_shrinks [OF assms(1) a] shrinksD [OF assms(1) b] show ?thesis by simp
qed

lemma decode_tuple_shrinks:
  "shrinks dec \<Longrightarrow> decode_tuple h dec tag s = Inr (v, s') \<Longrightarrow> length s' \<le> length s"
  by (auto simp: decode_tuple_def split: if_splits sum.splits prod.splits list.splits
      dest!: decode_seq_shrinks)

lemma decode_pid_shrinks:
  "shrinks dec \<Longrightarrow> decode_pid dec s = Inr (v, s') \<Longrightarrow> length s' \<le> length s"
  by (auto simp: decode_pid_def split: if_splits sum.splits prod.splits dest!: shrinksD)

lemma decode_reference_shrinks:
  "shrinks dec \<Longrightarrow> decode_reference dec s = Inr (v, s') \<Longrightarrow> length s' \<le> length s"
  by (auto simp: decode_reference_def split: if_splits sum.splits prod.splits dest!: shrinksD)

lemma decode_port_shrinks:
  "shrinks dec \<Longrightarrow> decode_port dec s = Inr (v, s') \<Longrightarrow> length s' \<le> length s"
  by (auto simp: decode_port_def split: if_splits sum.splits prod.splits dest!: shrinksD)

lemma decode_new_reference_shrinks:
  "shrinks dec \<Longrightarrow> decode_new_reference dec s = Inr (v, s') \<Longrightarrow> length s' \<le> length s"
  by (auto simp: decode_new_reference_def Let_def split: if_splits sum.splits prod.splits dest!: shrinksD)

lemma decode_export_shrinks:
  assumes "shrinks dec" and "decode_export dec s = Inr (v, s')"
  shows "length s' \<le> length s"
proof -
  from assms(2) obtain a s1 b s2 c where
    "dec s = Inr (a, s1)" "dec s1 = Inr (b, s2)" "dec s2 = Inr (c, s')"
    by (auto simp: decode_export_def split: sum.splits prod.splits)
  then show ?thesis using shrinksD [OF assms(1)] by (meson order_trans)
qed

lemma decode_leaf_shrinks:
  "decode_small_integer s = Inr (v, s') \<Longrightarrow> length s' \<le> length s"
  "decode_integer s = Inr (v, s') \<Longrightarrow> length s' \<le> length s"
  "decode_string s = Inr (v, s') \<Longrightarrow> length s' \<le> length s"
  "decode_binary s = Inr (v, s') \<Longrightarrow> length s' \<le> length s"
  "decode_atom s = Inr (v, s') \<Longrightarrow> length s' \<le> length s"
  "decode_new_float s = Inr (v, s') \<Longrightarrow> length s' \<le> length s"
  "decode_float h s = Inr (v, s') \<Longrightarrow> length s' \<le> length s"
  "decode_big tag s = Inr (v, s') \<Longrightarrow> length s' \<le> length s"
  "decode_bit_binary s = Inr (v, s') \<Longrightarrow> length s' \<le> length s"
  by (auto simp: decode_small_integer_def decode_integer_def decode_string_def
      decode_binary_def decode_atom_def decode_new_float_def decode_float_def
      decode_big_def decode_bit_binary_def Let_def
      split: if_splits sum.splits prod.splits list.splits)

lemma decode_body_shrinks:
  assumes "shrinks dec" and "decode_body h dec s = Inr (v, s')"
  shows "length s' < length s"
proof (cases s)
  case Nil
  then show ?thesis using assms(2) by (simp add: decode_body_def)
next
  case (Cons tag tail)
  have "length s' \<le> length tail"
    using assms(2) Cons
      decode_leaf_shrinks(1-6,9) [of tail v s'] decode_leaf_shrinks(7) [of h tail v s']
      decode_leaf_shrinks(8) [of tag tail v s']
      decode_list_shrinks [OF assms(1), of tail v s']
      decode_tuple_shrinks [OF assms(1), of h tag tail v s']
      decode_pid_shrinks [OF assms(1), of tail v s']
      decode_reference_shrinks [OF assms(1), of tail v s']
      decode_port_shrinks [OF assms(1), of tail v s']
      decode_new_reference_shrinks [OF assms(1), of tail v s']
      decode_export_shrinks [OF assms(1), of tail v s']
    by (simp add: decode_body_def split: if_splits)
  then show ?thesis using Cons by simp
qed

lemma decode_list_agree:
  assumes "shrinks dec1" and "agree (length s) dec1 dec2"
  shows "decode_list dec1 s = decode_list dec2 s"
proof (cases "length s < 4")
  case True
  then show ?thesis by (simp add: decode_list_def)
next
  case False
  define n where "n = be_val (take 4 s)"
  define t where "t = drop 4 s"
  have lt: "length t \<le> length s" by (simp add: t_def)
  have eq: "decode_seq dec1 n t = decode_seq dec2 n t"
    by (rule decode_seq_agree [OF assms(1) agree_mono [OF assms(2) lt]])
  have unf: "decode_list dec s =
      (case decode_seq dec n t of Inl e \<Rightarrow> Inl e
       | Inr (lst, tail') \<Rightarrow>
           (case dec tail' of Inl e \<Rightarrow> Inl e
            | Inr (ignored, tail'') \<Rightarrow> Inr (PList lst, tail'')))" for dec
    using False by (simp add: decode_list_def n_def t_def)
  show ?thesis
  proof (cases "decode_seq dec1 n t")
    case (Inl e)
    then show ?thesis using eq by (simp add: unf)
  next
    case (Inr r)
    obtain lst s1 where r: "r = (lst, s1)" by (cases r)
    have d1: "decode_seq dec1 n t = Inr (lst, s1)" using Inr r by simp
    have d2: "decode_seq dec2 n t = Inr (lst, s1)" using d1 eq by simp
    have "length s1 \<le> length t" by (rule decode_seq_shrinks [OF assms(1) d1])
    then have "length s1 \<le> length s" using lt by simp
    then have "dec1 s1 = dec2 s1" by (rule agreeD [OF assms(2)])
    then show ?thesis by (simp add: unf d1 d2)
  qed
qed

lemma decode_tuple_agree:
  assumes "shrinks dec1" and "agree (length s) dec1 dec2"
  shows "decode_tuple h dec1 tag s = decode_tuple h dec2 tag s"
proof -
  have "decode_seq dec1 n x = decode_seq dec2 n x" if "length x \<le> length s" for n x
    using decode_seq_agree [OF assms(1) agree_mono [OF assms(2) that]] .
  then show ?thesis
    by (auto simp: decode_tuple_def split: list.splits)
qed

lemma decode_pid_agree:
  "agree (length s) dec1 dec2 \<Longrightarrow> decode_pid dec1 s = decode_pid dec2 s"
  by (simp add: decode_pid_def agree_def)

lemma decode_reference_agree:
  "agree (length s) dec1 dec2 \<Longrightarrow> decode_reference dec1 s = decode_reference dec2 s"
  by (simp add: decode_reference_def agree_def)

lemma decode_port_agree:
  "agree (length s) dec1 dec2 \<Longrightarrow> decode_port dec1 s = decode_port dec2 s"
  by (simp add: decode_port_def agree_def)

lemma decode_new_reference_agree:
  "agree (length s) dec1 dec2 \<Longrightarrow> decode_new_reference dec1 s = decode_new_reference dec2 s"
  by (simp add: decode_new_reference_def agree_def)

lemma decode_export_agree:
  assumes "shrinks dec1" and "agree (length s) dec1 dec2"
  shows "decode_export dec1 s = decode_export dec2 s"
proof -
  have e1: "dec1 s = dec2 s" using agreeD [OF assms(2)] by simp
  show ?thesis
  proof (cases "dec1 s")
    case (Inl e)
    moreover have "dec2 s = Inl e" using Inl e1 by simp
    ultimately show ?thesis by (simp add: decode_export_def)
  next
    case (Inr r)
    obtain a s1 where r: "r = (a, s1)" by (cases r)
    have d1: "dec1 s = Inr (a, s1)" using Inr r by simp
    have d2: "dec2 s = Inr (a, s1)" using d1 e1 by simp
    have l1: "length s1 \<le> length s" by (rule shrinksD [OF assms(1) d1])
    have e2: "dec1 s1 = dec2 s1" using agreeD [OF assms(2) l1] .
    show ?thesis
    proof (cases "dec1 s1")
      case (Inl e)
      moreover have "dec2 s1 = Inl e" using Inl e2 by simp
      ultimately show ?thesis by (simp add: decode_export_def d1 d2)
    next
      case Inr2: (Inr r2)
      obtain b s2 where r2: "r2 = (b, s2)" by (cases r2)
      have f1: "dec1 s1 = Inr (b, s2)" using Inr2 r2 by simp
      have f2: "dec2 s1 = Inr (b, s2)" using f1 e2 by simp
      have "length s2 \<le> length s1" by (rule shrinksD [OF assms(1) f1])
      then have "length s2 \<le> length s" using l1 by simp
      then have "dec1 s2 = dec2 s2" by (rule agreeD [OF assms(2)])
      then show ?thesis by (simp add: decode_export_def d1 d2 f1 f2)
    qed
  qed
qed

lemma decode_body_agree:
  assumes "shrinks dec1" and "\<And>x. length x < length s \<Longrightarrow> dec1 x = dec2 x"
  shows "decode_body h dec1 s = decode_body h dec2 s"
proof (cases s)
  case Nil
  then show ?thesis by (simp add: decode_body_def)
next
  case (Cons tag tail)
  have ag: "agree (length tail) dec1 dec2"
    using assms(2) Cons by (simp add: agree_def)
  show ?thesis
    using Cons decode_list_agree [OF assms(1) ag] decode_tuple_agree [OF assms(1) ag]
      decode_pid_agree [OF ag] decode_reference_agree [OF ag] decode_port_agree [OF ag]
      decode_new_reference_agree [OF ag] decode_export_agree [OF assms(1) ag]
    by (simp add: decode_body_def)
qed

lemma decode_term_fuel_shrinks: "shrinks (decode_term_fuel h d)"
proof (induction d)
  case 0
  then show ?case by (simp add: shrinks_def)
next
  case (Suc d)
  show ?case
    unfolding shrinks_def
  proof (intro allI impI)
    fix s v s'
    assume "decode_term_fuel h (Suc d) s = Inr (v, s')"
    then have "decode_body h (decode_term_fuel h d) s = Inr (v, s')" by simp
    from decode_body_shrinks [OF Suc this] show "length s' \<le> length s" by simp
  qed
qed

lemma decode_term_fuel_enough:
  "length s < d \<Longrightarrow> length s < d' \<Longrightarrow> decode_term_fuel h d s = decode_term_fuel h d' s"
proof (induction d arbitrary: d' s)
  case 0
  then show ?case by simp
next
  case (Suc d)
  then obtain e where d': "d' = Suc e" by (cases d') auto
  have "decode_body h (decode_term_fuel h d) s = decode_body h (decode_term_fuel h e) s"
  proof (rule decode_body_agree [OF decode_term_fuel_shrinks])
    fix x :: bytes
    assume "length x < length s"
    then show "decode_term_fuel h d x = decode_term_fuel h e x"
      using Suc.prems d' by (intro Suc.IH) auto
  qed
  then show ?case using d' by simp
qed

lemma decode_term_unfold: "decode_term h s = decode_body h (decode_term h) s"
proof -
  have "decode_body h (decode_term_fuel h (length s)) s = decode_body h (decode_term h) s"
  proof (rule decode_body_agree [OF decode_term_fuel_shrinks])
    fix x :: bytes
    assume "length x < length s"
    then show "decode_term_fuel h (length s) x = decode_term h x"
      unfolding decode_term_def by (intro decode_term_fuel_enough) auto
  qed
  then show ?thesis by (simp add: decode_term_def)
qed

lemma decode_term_shrinks: "decode_term h s = Inr (v, s') \<Longrightarrow> length s' < length s"
proof -
  assume a: "decode_term h s = Inr (v, s')"
  have "shrinks (decode_term h)"
    unfolding shrinks_def decode_term_def
    using decode_term_fuel_shrinks [unfolded shrinks_def] by blast
  from decode_body_shrinks [OF this] a decode_term_unfold [of h s] show ?thesis by simp
qed

section \<open>Facts about the byte-level helpers\<close>

lemma be_val_simps [simp]:
  "be_val [] = 0" "be_val [a] = unat a" "be_val [a, b] = unat a * 256 + unat b"
  "be_val [a, b, c, d] = ((unat a * 256 + unat b) * 256 + unat c) * 256 + unat d"
  by (simp_all add: be_val_def)

lemma unat_byte_of_nat: "unat (of_nat n :: byte) = n mod 256"
  by (simp add: unat_of_nat)

lemma length_be16 [simp]: "length (be16 n) = 2"
  by (simp add: be16_def)

lemma length_be32 [simp]: "length (be32 n) = 4"
  by (simp add: be32_def)

lemma length_be64 [simp]: "length (be64 n) = 8"
  by (simp add: be64_def)

lemma be_val_be16: "n \<le> 65535 \<Longrightarrow> be_val (be16 n) = n"
  by (simp add: be16_def unat_byte_of_nat)

lemma be_val_be32_mod: "be_val (be32 n) = n mod 4294967296"
proof -
  have a: "n mod 65536 = 256 * (n div 256 mod 256) + n mod 256"
    using mod_mult2_eq [of n 256 256] by simp
  have b: "n mod 16777216 = 65536 * (n div 65536 mod 256) + n mod 65536"
    using mod_mult2_eq [of n 65536 256] by simp
  have c: "n mod 4294967296 = 16777216 * (n div 16777216 mod 256) + n mod 16777216"
    using mod_mult2_eq [of n 16777216 256] by simp
  show ?thesis by (simp add: be32_def unat_byte_of_nat a b c)
qed

lemma be_val_be32: "n \<le> 4294967295 \<Longrightarrow> be_val (be32 n) = n"
  by (simp add: be_val_be32_mod)

lemma be_val_foldl:
  "foldl (\<lambda>acc b. acc * 256 + unat (b :: byte)) a ys = a * 256 ^ length ys + be_val ys"
proof (induction ys arbitrary: a)
  case Nil
  show ?case by simp
next
  case (Cons y ys)
  have "foldl (\<lambda>acc b. acc * 256 + unat b) a (y # ys)
      = foldl (\<lambda>acc b. acc * 256 + unat b) (a * 256 + unat y) ys" by simp
  also have "\<dots> = (a * 256 + unat y) * 256 ^ length ys + be_val ys" by (rule Cons.IH)
  also have "be_val (y # ys) = unat y * 256 ^ length ys + be_val ys"
    using Cons.IH [of "unat y"] by (simp add: be_val_def)
  then have "(a * 256 + unat y) * 256 ^ length ys + be_val ys
      = a * 256 ^ length (y # ys) + be_val (y # ys)" by (simp add: algebra_simps)
  finally show ?case .
qed

lemma be_val_append: "be_val (xs @ ys) = be_val xs * 256 ^ length ys + be_val ys"
  using be_val_foldl [of "be_val xs" ys] by (simp add: be_val_def)

lemma be_val_be64: "n < 18446744073709551616 \<Longrightarrow> be_val (be64 n) = n"
proof -
  assume n: "n < 18446744073709551616"
  have hi: "n div 4294967296 < 4294967296" using n by simp
  have "n div 4294967296 * 4294967296 + n mod 4294967296 = n" by simp
  then show ?thesis
    using hi by (simp add: be64_def be_val_append be_val_be32_mod)
qed

lemma float_bits_roundtrip: "(of_nat (be_val (be64 (unat (w :: 64 word)))) :: 64 word) = w"
proof -
  have "unat w < 2 ^ 64" using unsigned_less [of w, where 'a = nat] by simp
  then have "unat w < 18446744073709551616" by simp
  then show ?thesis by (simp add: be_val_be64)
qed

lemma unpack_pack_i:
  assumes "- 2147483648 \<le> n" and "n \<le> 2147483647"
  shows "unpack_i (pack_i n) = n"
proof -
  have m: "0 \<le> n mod 4294967296" "n mod 4294967296 < 4294967296" by simp_all
  then have "nat (n mod 4294967296) \<le> 4294967295" by linarith
  then have v: "be_val (pack_i n) = nat (n mod 4294967296)"
    by (simp add: pack_i_def be_val_be32)
  show ?thesis
  proof (cases "0 \<le> n")
    case True
    then have "n mod 4294967296 = n" using assms by simp
    then show ?thesis using v True assms by (simp add: unpack_i_def Let_def)
  next
    case False
    have "(n + 4294967296) mod 4294967296 = n + 4294967296"
      using False assms by (intro mod_pos_pos_trivial) auto
    then have "n mod 4294967296 = n + 4294967296" by simp
    then show ?thesis using v False assms by (simp add: unpack_i_def Let_def)
  qed
qed

lemma uint_byte_of_int: "0 \<le> n \<Longrightarrow> n \<le> 255 \<Longrightarrow> uint (word_of_int n :: byte) = n"
  by (simp add: uint_word_of_int)

lemma unat_byte_of_nat_small: "n \<le> 255 \<Longrightarrow> unat (of_nat n :: byte) = n"
  by (simp add: unat_byte_of_nat)

lemma le_val_nonneg: "0 \<le> le_val bs"
  by (induction bs) simp_all

lemma le_val_int_bytes: "0 \<le> n \<Longrightarrow> le_val (int_bytes n) = n"
proof (induction n rule: int_bytes.induct)
  case (1 n)
  show ?case
  proof (cases "n > 0")
    case True
    have d: "drop_bit 8 n = n div 256" by (simp add: drop_bit_eq_div)
    have a: "n AND 255 = n mod 256"
      using take_bit_eq_mask [of 8 n] by (simp add: take_bit_eq_mod mask_eq_exp_minus_1)
    have "le_val (int_bytes (drop_bit 8 n)) = drop_bit 8 n"
      using "1.IH" [OF True] True d by simp
    moreover have "uint (word_of_int (n mod 256) :: byte) = n mod 256"
      by (simp add: uint_word_of_int)
    ultimately show ?thesis
      using True by (subst int_bytes.simps) (simp add: a d)
  next
    case False
    then show ?thesis using "1.prems" by (subst int_bytes.simps) simp
  qed
qed

lemma int_bytes_last: "int_bytes n \<noteq> [] \<Longrightarrow> last (int_bytes n) \<noteq> 0"
proof (induction n rule: int_bytes.induct)
  case (1 n)
  have pos: "n > 0" using "1.prems" by (subst (asm) int_bytes.simps) (simp split: if_splits)
  have d: "drop_bit 8 n = n div 256" by (simp add: drop_bit_eq_div)
  have a: "n AND 255 = n mod 256"
    using take_bit_eq_mask [of 8 n] by (simp add: take_bit_eq_mod mask_eq_exp_minus_1)
  show ?case
  proof (cases "int_bytes (drop_bit 8 n) = []")
    case True
    then have "\<not> drop_bit 8 n > 0" by (subst (asm) int_bytes.simps) (simp split: if_splits)
    then have small: "n < 256" using pos d by simp
    have "int_bytes n = [word_of_int (n mod 256)]"
      using pos True by (subst int_bytes.simps) (simp add: a)
    moreover have "uint (word_of_int (n mod 256) :: byte) = n"
      using pos small by (simp add: uint_word_of_int)
    then have "(word_of_int (n mod 256) :: byte) \<noteq> 0" using pos by auto
    ultimately show ?thesis by simp
  next
    case False
    have "int_bytes n = word_of_int (n AND 255) # int_bytes (drop_bit 8 n)"
      using pos by (subst int_bytes.simps) simp
    then show ?thesis using False "1.IH" [OF pos False] by simp
  qed
qed

lemma int_bytes_nonempty: "0 < n \<Longrightarrow> int_bytes n \<noteq> []"
  by (subst int_bytes.simps) simp

text \<open>The decoder's accumulation over the reversed digits.\<close>

lemma shift_or_add: "push_bit 8 n OR uint (i :: byte) = n * 256 + uint i"
proof -
  have lt: "uint i < 2 ^ 8" using unsigned_less [of i, where 'a = int] by simp
  have tb: "take_bit 8 (uint i) = uint i"
    by (rule take_bit_int_eq_self) (use lt in simp_all)
  have "push_bit 8 n + take_bit 8 (uint i) = push_bit 8 n OR take_bit 8 (uint i)"
    by (rule disjunctive_add) (auto simp: bit_push_bit_iff bit_take_bit_iff)
  then show ?thesis by (simp add: tb push_bit_eq_mult)
qed

lemma foldl_shift_or:
  "foldl (\<lambda>n i. push_bit 8 n OR uint (i :: byte)) a (rev bs) = a * 256 ^ length bs + le_val bs"
proof (induction bs arbitrary: a)
  case Nil
  show ?case by simp
next
  case (Cons b bs)
  have "foldl (\<lambda>n i. push_bit 8 n OR uint i) a (rev (b # bs))
      = push_bit 8 (foldl (\<lambda>n i. push_bit 8 n OR uint i) a (rev bs)) OR uint b" by simp
  also have "\<dots> = (a * 256 ^ length bs + le_val bs) * 256 + uint b"
    unfolding Cons.IH by (simp only: shift_or_add)
  finally show ?case by (simp add: algebra_simps)
qed

lemma decode_digits: "foldl (\<lambda>n i. push_bit 8 n OR uint (i :: byte)) 0 (rev bs) = le_val bs"
  by (simp add: foldl_shift_or)

section \<open>Evaluating the decoder\<close>

lemma decode_term_Nil: "decode_term h [] = Inl IncompleteData"
  by (subst decode_term_unfold) (simp add: decode_body_def)

lemma decode_term_Cons:
  "decode_term h (tag # tail) =
     (if tag = 97 then decode_small_integer tail
      else if tag = 98 then decode_integer tail
      else if tag = 106 then Inr (PList [], tail)
      else if tag = 107 then decode_string tail
      else if tag = 108 then decode_list (decode_term h) tail
      else if tag = 109 then decode_binary tail
      else if tag = 100 then decode_atom tail
      else if tag = 104 \<or> tag = 105 then decode_tuple h (decode_term h) tag tail
      else if tag = 70 then decode_new_float tail
      else if tag = 99 then decode_float h tail
      else if tag = 110 \<or> tag = 111 then decode_big tag tail
      else if tag = 77 then decode_bit_binary tail
      else if tag = 103 then decode_pid (decode_term h) tail
      else if tag = 101 then decode_reference (decode_term h) tail
      else if tag = 102 then decode_port (decode_term h) tail
      else if tag = 114 then decode_new_reference (decode_term h) tail
      else if tag = 113 then decode_export (decode_term h) tail
      else Inl (ValueError ''unsupported data tag''))"
  by (subst decode_term_unfold) (simp add: decode_body_def)

lemma decode_seq_unfold:
  "decode_seq dec n tail =
     (if n = 0 then Inr ([], tail)
      else (case dec tail of Inl e \<Rightarrow> Inl e
            | Inr (t, tail') \<Rightarrow>
                (case decode_seq dec (n - 1) tail' of Inl e \<Rightarrow> Inl e
                 | Inr (lst, tail'') \<Rightarrow> Inr (t # lst, tail''))))"
  by (cases n) (auto split: sum.splits prod.splits)

lemma decode_seq_length: "decode_seq dec n s = Inr (lst, s') \<Longrightarrow> length lst = n"
  by (induction n arbitrary: s lst s') (auto split: sum.splits prod.splits)

section \<open>A sample host\<close>

lemma encode_term_fifteen_zeros: "encode_term h fifteen_zeros = Inr sample_payload"
  by (simp add: fifteen_zeros_def sample_payload_def encode_list_def string_bytes_def be16_def)

lemma encode_fifteen_zeros_off:
  "encode h fifteen_zeros (CBool False) = Inr (131 # sample_payload)"
  by (simp add: encode_def encode_term_fifteen_zeros)

lemma encode_fifteen_zeros_on:
  "encode sample_host fifteen_zeros (CBool True) = Inr ([131, 80, 0, 0, 0, 18] @ sample_deflated)"
  by (simp add: encode_def encode_term_fifteen_zeros sample_host_def pack_I_def be32_def)
     (simp add: sample_payload_def sample_deflated_def)

section \<open>The frame prefix\<close>

text \<open>
  C9. Whenever \<open>encode\<close> succeeds, with any compression argument, its output
  starts with the version byte 131 (0x83), in the compressed and in the uncompressed
  framing.
\<close>

theorem encode_first_byte: "encode h t c = Inr out \<Longrightarrow> \<exists>rest. out = 131 # rest"
  by (auto simp: encode_def split: sum.splits if_splits)

theorem encode_first_byte_witness:
  "(\<exists>rest. [131, 80, 0, 0, 0, 18] @ sample_deflated = 131 # rest) \<and>
   encode sample_host fifteen_zeros (CBool True) = Inr ([131, 80, 0, 0, 0, 18] @ sample_deflated) \<and>
   (\<exists>rest. 131 # sample_payload = 131 # rest) \<and>
   encode sample_host fifteen_zeros (CBool False) = Inr (131 # sample_payload)"
  using encode_first_byte [OF encode_fifteen_zeros_on]
    encode_first_byte [OF encode_fifteen_zeros_off [of sample_host]]
    encode_fifteen_zeros_on encode_fifteen_zeros_off [of sample_host]
  by simp

section \<open>Integers\<close>

text \<open>
  C5. For every integer \<open>n\<close>: if \<open>0 \<le> n \<le> 255\<close>, \<open>encode_term\<close> gives tag 97 and
  the single byte \<open>n\<close>; else if \<open>-2^31 \<le> n \<le> 2^31 - 1\<close>, tag 98 and four bytes whose
  big-endian two's complement reading is \<open>n\<close>; otherwise the sign byte (0 for
  \<open>n \<ge> 0\<close>, 1 for \<open>n < 0\<close>) and the minimal little-endian digits \<open>mag\<close> of \<open>|n|\<close>
  (their value is \<open>|n|\<close> and the last digit is not zero), under tag 110 with a
  one-byte count when there are at most 255 digits, under tag 111 with a four-byte
  count when there are at most \<open>2^32 - 1\<close>, and the \<^verbatim>\<open>ValueError\<close>
  "invalid integer value" otherwise.
\<close>

theorem encode_integer_layout:
  "(0 \<le> n \<and> n \<le> 255 \<longrightarrow>
      encode_term h (PInt n) = Inr [97, word_of_int n] \<and> uint (word_of_int n :: byte) = n) \<and>
   (\<not> (0 \<le> n \<and> n \<le> 255) \<and> - 2147483648 \<le> n \<and> n \<le> 2147483647 \<longrightarrow>
      (\<exists>bs. encode_term h (PInt n) = Inr (98 # bs) \<and> length bs = 4 \<and> unpack_i bs = n)) \<and>
   (n < - 2147483648 \<or> 2147483647 < n \<longrightarrow>
      (\<exists>mag. le_val mag = \<bar>n\<bar> \<and> mag \<noteq> [] \<and> last mag \<noteq> 0 \<and>
         encode_term h (PInt n) =
           (if length mag \<le> 255
              then Inr ([110, of_nat (length mag), if 0 \<le> n then 0 else 1] @ mag)
            else if length mag \<le> 4294967295
              then Inr (111 # be32 (length mag) @ [if 0 \<le> n then 0 else 1] @ mag)
            else Inl (ValueError ''invalid integer value''))))"
proof (intro conjI impI)
  assume "0 \<le> n \<and> n \<le> 255"
  then show "encode_term h (PInt n) = Inr [97, word_of_int n]"
    by (simp add: encode_int_def)
next
  assume "0 \<le> n \<and> n \<le> 255"
  then show "uint (word_of_int n :: byte) = n" by (simp add: uint_byte_of_int)
next
  assume a: "\<not> (0 \<le> n \<and> n \<le> 255) \<and> - 2147483648 \<le> n \<and> n \<le> 2147483647"
  then have "encode_term h (PInt n) = Inr (98 # pack_i n)" by (simp add: encode_int_def)
  moreover have "length (pack_i n) = 4" by (simp add: pack_i_def)
  moreover have "unpack_i (pack_i n) = n" using a by (simp add: unpack_pack_i)
  ultimately show "\<exists>bs. encode_term h (PInt n) = Inr (98 # bs) \<and> length bs = 4 \<and> unpack_i bs = n"
    by blast
next
  assume big: "n < - 2147483648 \<or> 2147483647 < n"
  define mag where "mag = int_bytes \<bar>n\<bar>"
  have pos: "0 < \<bar>n\<bar>" using big by auto
  have v: "le_val mag = \<bar>n\<bar>" unfolding mag_def by (rule le_val_int_bytes) simp
  have ne: "mag \<noteq> []" unfolding mag_def by (rule int_bytes_nonempty [OF pos])
  have lst: "last mag \<noteq> 0" using ne unfolding mag_def by (rule int_bytes_last)
  have abs: "(if 0 \<le> n then n else - n) = \<bar>n\<bar>" by simp
  have "encode_term h (PInt n) =
      (if length mag \<le> 255
         then Inr ([110, of_nat (length mag), if 0 \<le> n then 0 else 1] @ mag)
       else if length mag \<le> 4294967295
         then Inr (111 # be32 (length mag) @ [if 0 \<le> n then 0 else 1] @ mag)
       else Inl (ValueError ''invalid integer value''))"
    using big unfolding mag_def by (auto simp: encode_int_def Let_def abs)
  with v ne lst show "\<exists>mag. le_val mag = \<bar>n\<bar> \<and> mag \<noteq> [] \<and> last mag \<noteq> 0 \<and>
         encode_term h (PInt n) =
           (if length mag \<le> 255
              then Inr ([110, of_nat (length mag), if 0 \<le> n then 0 else 1] @ mag)
            else if length mag \<le> 4294967295
              then Inr (111 # be32 (length mag) @ [if 0 \<le> n then 0 else 1] @ mag)
            else Inl (ValueError ''invalid integer value''))"
    by blast
qed

theorem encode_integer_layout_witness:
  "encode_term sample_host (PInt 7) = Inr [97, 7] \<and>
   (\<exists>bs. encode_term sample_host (PInt (- 1)) = Inr (98 # bs) \<and> length bs = 4
      \<and> unpack_i bs = - 1) \<and>
   (\<exists>mag. le_val mag = 4294967296 \<and> mag \<noteq> [] \<and> last mag \<noteq> 0 \<and>
      encode_term sample_host (PInt (- 4294967296)) =
        (if length mag \<le> 255 then Inr ([110, of_nat (length mag), 1] @ mag)
         else if length mag \<le> 4294967295 then Inr (111 # be32 (length mag) @ [1] @ mag)
         else Inl (ValueError ''invalid integer value'')))"
proof (intro conjI)
  show "encode_term sample_host (PInt 7) = Inr [97, 7]"
    using encode_integer_layout [of 7 sample_host] by simp
  show "\<exists>bs. encode_term sample_host (PInt (- 1)) = Inr (98 # bs) \<and> length bs = 4
      \<and> unpack_i bs = - 1"
    using encode_integer_layout [of "- 1" sample_host] by simp
  from encode_integer_layout [of "- 4294967296" sample_host]
  obtain mag where "le_val mag = \<bar>- 4294967296\<bar>" "mag \<noteq> []" "last mag \<noteq> 0"
    "encode_term sample_host (PInt (- 4294967296)) =
        (if length mag \<le> 255
           then Inr ([110, of_nat (length mag), if (0::int) \<le> - 4294967296 then 0 else 1] @ mag)
         else if length mag \<le> 4294967295
           then Inr (111 # be32 (length mag) @ [if (0::int) \<le> - 4294967296 then 0 else 1] @ mag)
         else Inl (ValueError ''invalid integer value''))"
    by auto
  then show "\<exists>mag. le_val mag = 4294967296 \<and> mag \<noteq> [] \<and> last mag \<noteq> 0 \<and>
      encode_term sample_host (PInt (- 4294967296)) =
        (if length mag \<le> 255 then Inr ([110, of_nat (length mag), 1] @ mag)
         else if length mag \<le> 4294967295 then Inr (111 # be32 (length mag) @ [1] @ mag)
         else Inl (ValueError ''invalid integer value''))"
    by (intro exI [of _ mag]) auto
qed

section \<open>Process identifiers\<close>

text \<open>
  C8 (the code departs from the claim). \<^verbatim>\<open>encode_term\<close> checks the width of a Pid's
  serial field only: a Pid whose id has two bytes is encoded without an error, into a
  frame one field short, although the sibling branch for a Port rejects the same id.
\<close>

theorem pid_short_id_accepted:
  "encode h (PPid (PAtom [110]) [97, 98] [97, 98, 99, 100] 0) (CBool False)
     = Inr [131, 103, 100, 0, 1, 110, 97, 98, 97, 98, 99, 100, 0] \<and>
   encode h (PPort (PAtom [110]) [97, 98] 0) (CBool False)
     = Inl (ValueError ''invalid port id field'')"
  by (simp add: encode_def encode_atom_def pack_H_def be16_def chr_format_def)

section \<open>Truncated frames\<close>

lemma truncated_new_float: "length bs < 8 \<Longrightarrow> decode h (131 # 70 # bs) = Inl StructError"
  by (simp add: decode_def decode_term_Cons decode_new_float_def)

text \<open>
  C2 (the code departs from the claim). The branch for tag 70 has no length check:
  on a frame of a float cut after five bytes, \<^verbatim>\<open>unpack(">d", tail[:8])\<close> raises
  \<^verbatim>\<open>struct.error\<close>, not \<^verbatim>\<open>IncompleteData\<close>.
\<close>

theorem truncated_float_struct_error:
  "encode h (PFloat 0x3FF8000000000000) (CBool False) = Inr [131, 70, 63, 248, 0, 0, 0, 0, 0, 0] \<and>
   decode h (take 5 [131, 70, 63, 248, 0, 0, 0, 0, 0, 0]) = Inl StructError"
  by (simp add: encode_def be64_def be32_def truncated_new_float)

section \<open>Lists of small integers and Booleans\<close>

lemma string_bytes_byte_elements:
  "list_all is_byte_element ts \<Longrightarrow> string_bytes ts = Some (map element_byte ts)"
proof -
  assume a: "list_all is_byte_element ts"
  have i: "is_integer t" if "is_byte_element t" for t
    using that by (cases t) simp_all
  have b: "array_B_item t = Some (element_byte t)" if "is_byte_element t" for t
    using that by (cases t) simp_all
  have "list_all is_integer ts" using a i by (induction ts) auto
  moreover have "array_B ts = Some (map element_byte ts)"
    using a b by (induction ts) auto
  ultimately show ?thesis by (simp add: string_bytes_def)
qed



section \<open>Improper lists\<close>

lemma decode_seq_chain:
  "decode_seq dec n s = Inr (lst, s') \<longleftrightarrow>
     (\<exists>tails. length lst = n \<and> length tails = n + 1 \<and> tails ! 0 = s \<and>
        (\<forall>i<n. dec (tails ! i) = Inr (lst ! i, tails ! Suc i)) \<and> tails ! n = s')"
proof (induction n arbitrary: s lst)
  case 0
  show ?case
  proof
    assume "decode_seq dec 0 s = Inr (lst, s')"
    then have "lst = []" "s' = s" by simp_all
    then show "\<exists>tails. length lst = 0 \<and> length tails = 0 + 1 \<and> tails ! 0 = s \<and>
        (\<forall>i<0. dec (tails ! i) = Inr (lst ! i, tails ! Suc i)) \<and> tails ! 0 = s'"
      by (intro exI [of _ "[s]"]) simp
  next
    assume "\<exists>tails. length lst = 0 \<and> length tails = 0 + 1 \<and> tails ! 0 = s \<and>
        (\<forall>i<0. dec (tails ! i) = Inr (lst ! i, tails ! Suc i)) \<and> tails ! 0 = s'"
    then show "decode_seq dec 0 s = Inr (lst, s')" by auto
  qed
next
  case (Suc n)
  show ?case
  proof
    assume a: "decode_seq dec (Suc n) s = Inr (lst, s')"
    then obtain t s1 lst1 where
      d: "dec s = Inr (t, s1)" and r: "decode_seq dec n s1 = Inr (lst1, s')" and
      l: "lst = t # lst1"
      by (auto split: sum.splits prod.splits)
    from r Suc.IH [of s1 lst1] obtain tails where
      t: "length lst1 = n" "length tails = n + 1" "tails ! 0 = s1"
        "\<forall>i<n. dec (tails ! i) = Inr (lst1 ! i, tails ! Suc i)" "tails ! n = s'"
      by blast
    have "\<forall>i<Suc n. dec ((s # tails) ! i) = Inr (lst ! i, (s # tails) ! Suc i)"
    proof (intro allI impI)
      fix i assume "i < Suc n"
      then show "dec ((s # tails) ! i) = Inr (lst ! i, (s # tails) ! Suc i)"
        using d t l by (cases i) simp_all
    qed
    then show "\<exists>tails. length lst = Suc n \<and> length tails = Suc n + 1 \<and> tails ! 0 = s \<and>
        (\<forall>i<Suc n. dec (tails ! i) = Inr (lst ! i, tails ! Suc i)) \<and> tails ! Suc n = s'"
      using t l by (intro exI [of _ "s # tails"]) simp
  next
    assume "\<exists>tails. length lst = Suc n \<and> length tails = Suc n + 1 \<and> tails ! 0 = s \<and>
        (\<forall>i<Suc n. dec (tails ! i) = Inr (lst ! i, tails ! Suc i)) \<and> tails ! Suc n = s'"
    then obtain tails where
      t: "length lst = Suc n" "length tails = Suc n + 1" "tails ! 0 = s"
        "\<forall>i<Suc n. dec (tails ! i) = Inr (lst ! i, tails ! Suc i)" "tails ! Suc n = s'"
      by blast
    from t(1) obtain x lst1 where l: "lst = x # lst1" "length lst1 = n" by (cases lst) auto
    from t(2,3) obtain tails1 where tl: "tails = s # tails1" "length tails1 = n + 1"
      by (cases tails) auto
    have d: "dec s = Inr (x, tails1 ! 0)" using t(4) l tl by auto
    have "\<forall>i<n. dec (tails1 ! i) = Inr (lst1 ! i, tails1 ! Suc i)"
    proof (intro allI impI)
      fix i assume "i < n"
      then have "dec (tails ! Suc i) = Inr (lst ! Suc i, tails ! Suc (Suc i))"
        using t(4) by auto
      then show "dec (tails1 ! i) = Inr (lst1 ! i, tails1 ! Suc i)" using l tl by simp
    qed
    moreover have "tails1 ! n = s'" using t(5) tl by simp
    ultimately have "decode_seq dec n (tails1 ! 0) = Inr (lst1, s')"
      using Suc.IH [of "tails1 ! 0" lst1] l(2) tl(2) by blast
    then show "decode_seq dec (Suc n) s = Inr (lst, s')" using d l by simp
  qed
qed

text \<open>
  C7. On tag 108 with declared length \<open>n\<close>, \<open>decode_term\<close> returns a value \<open>v\<close>
  and a tail exactly when \<open>n\<close> terms can be decoded one after the other from the
  bytes after the length, each from what the one before it left (the successive inputs
  are \<open>tails ! 0\<close>, ..., \<open>tails ! n\<close>), and one further term, the tail of the list,
  can be decoded from what the last element left. Then \<open>v\<close> is the list of exactly
  these \<open>n\<close> elements, in order: element \<open>i\<close> is the term decoded from
  \<open>tails ! i\<close>. The value of the tail term is in no part of the result; only the
  bytes it leaves are returned.
\<close>

theorem list_ext_tail_discarded:
  assumes "n \<le> 4294967295"
  shows "decode_term h (108 # be32 n @ rest) = Inr (v, tail) \<longleftrightarrow>
     (\<exists>lst tails ignored. length lst = n \<and> length tails = n + 1 \<and> tails ! 0 = rest \<and>
        (\<forall>i<n. decode_term h (tails ! i) = Inr (lst ! i, tails ! Suc i)) \<and>
        decode_term h (tails ! n) = Inr (ignored, tail) \<and> v = PList lst)"
proof -
  have unf: "decode_term h (108 # be32 n @ rest) =
     (case decode_seq (decode_term h) n rest of Inl e \<Rightarrow> Inl e
      | Inr (lst, tail1) \<Rightarrow>
          (case decode_term h tail1 of Inl e \<Rightarrow> Inl e
           | Inr (ignored, tail2) \<Rightarrow> Inr (PList lst, tail2)))"
    using assms by (simp add: decode_term_Cons decode_list_def be_val_be32)
  have "decode_term h (108 # be32 n @ rest) = Inr (v, tail) \<longleftrightarrow>
      (\<exists>lst tail1 ignored. decode_seq (decode_term h) n rest = Inr (lst, tail1) \<and>
         decode_term h tail1 = Inr (ignored, tail) \<and> v = PList lst)"
    unfolding unf by (auto split: sum.splits prod.splits)
  also have "\<dots> \<longleftrightarrow>
     (\<exists>lst tails ignored. length lst = n \<and> length tails = n + 1 \<and> tails ! 0 = rest \<and>
        (\<forall>i<n. decode_term h (tails ! i) = Inr (lst ! i, tails ! Suc i)) \<and>
        decode_term h (tails ! n) = Inr (ignored, tail) \<and> v = PList lst)"
    unfolding decode_seq_chain by blast
  finally show ?thesis .
qed

text \<open>
  The improper list \<open>[1, 2, 3 | 4]\<close> decodes to \<open>[1, 2, 3]\<close>.
\<close>

theorem list_ext_tail_discarded_witness:
  "decode_term sample_host [108, 0, 0, 0, 3, 97, 1, 97, 2, 97, 3, 97, 4]
     = Inr (PList [PInt 1, PInt 2, PInt 3], [])"
proof -
  have b: "be32 3 = [0, 0, 0, 3]" by (simp add: be32_def)
  have d: "decode_term sample_host (97 # x # s) = Inr (PInt (uint x), s)" for x s
    by (simp add: decode_term_Cons decode_small_integer_def)
  let ?tails = "[[97, 1, 97, 2, 97, 3, 97, 4], [97, 2, 97, 3, 97, 4], [97, 3, 97, 4], [97, 4 :: byte]]"
  let ?lst = "[PInt 1, PInt 2, PInt 3]"
  have "\<forall>i<3. decode_term sample_host (?tails ! i) = Inr (?lst ! i, ?tails ! Suc i)"
  proof (intro allI impI)
    fix i :: nat assume "i < 3"
    then consider "i = 0" | "i = 1" | "i = 2" by linarith
    then show "decode_term sample_host (?tails ! i) = Inr (?lst ! i, ?tails ! Suc i)"
      by cases (simp_all add: d)
  qed
  moreover have "decode_term sample_host (?tails ! 3) = Inr (PInt 4, [])" by (simp add: d)
  ultimately have "\<exists>lst tails ignored. length lst = 3 \<and> length tails = 3 + 1 \<and>
        tails ! 0 = [97, 1, 97, 2, 97, 3, 97, 4] \<and>
        (\<forall>i<3. decode_term sample_host (tails ! i) = Inr (lst ! i, tails ! Suc i)) \<and>
        decode_term sample_host (tails ! 3) = Inr (ignored, []) \<and>
        PList [PInt 1, PInt 2, PInt 3] = PList lst"
    by (intro exI [of _ ?lst] exI [of _ ?tails] exI [of _ "PInt 4"]) simp
  then have "decode_term sample_host (108 # be32 3 @ [97, 1, 97, 2, 97, 3, 97, 4])
      = Inr (PList [PInt 1, PInt 2, PInt 3], [])"
    using list_ext_tail_discarded [of 3 sample_host "[97, 1, 97, 2, 97, 3, 97, 4]"
        "PList [PInt 1, PInt 2, PInt 3]" "[]"] by simp
  then show ?thesis by (simp add: b)
qed

section \<open>The fallback bridge on decode\<close>

lemma encode_pickle_tuple: "encode h pickle_tuple (CBool False) = Inr pickle_frame"
  by (simp add: encode_def pickle_tuple_def pickle_frame_def tuple_header_def encode_atom_def
      encode_str_def pack_H_def be16_def be32_def python_pickle_def)

lemma decode_pickle_elements:
  "decode_seq (decode_term h) 2 (100 # 0 # 13 # python_pickle @ [109, 0, 0, 0, 0])
     = Inr ([PAtom python_pickle, PStr []], [])"
  by (simp add: decode_seq_unfold decode_term_Cons decode_atom_def decode_binary_def
      python_pickle_def atom_true_def atom_false_def atom_none_def)




section \<open>Compression\<close>

text \<open>
  C4 (as stated, false). The claim: the compressed framing is emitted only when it
  makes the frame strictly shorter, and otherwise the output is the uncompressed frame.
  The test of the source is \<^verbatim>\<open>len(zlib_term) + 5 <= len(encoded_term)\<close>: when the
  deflate stream is exactly five bytes shorter than the payload, the two frames have
  the same length and the compressed one is emitted. The list of fifteen zeros is such
  a term: its payload has 18 bytes and its deflate stream 13.
\<close>

theorem compression_tie_counterexample:
  "encode sample_host fifteen_zeros (CBool True) = Inr ([131, 80, 0, 0, 0, 18] @ sample_deflated) \<and>
   encode sample_host fifteen_zeros (CBool False) = Inr (131 # sample_payload) \<and>
   length ([131, 80, 0, 0, 0, 18] @ sample_deflated) = length (131 # sample_payload) \<and>
   [131, 80, 0, 0, 0, 18] @ sample_deflated \<noteq> 131 # sample_payload"
  by (simp add: encode_fifteen_zeros_on encode_fifteen_zeros_off)
     (simp add: sample_payload_def sample_deflated_def)

text \<open>
  C4 (amended). For every term and every truthy compression argument for which
  \<open>encode\<close> succeeds, with \<open>payload\<close> the output of \<open>encode_term\<close> and \<open>z\<close> its
  deflate stream: the output is the compressed framing (131, 80, the four-byte length
  of the payload, \<open>z\<close>) exactly when \<open>length z + 5 \<le> length payload\<close>, that is when
  the compressed frame is not longer than the uncompressed one, and it is the
  uncompressed frame of \<open>encode\<close> without compression otherwise; in both cases it is not
  longer than the uncompressed frame.
\<close>

theorem compression_conservative:
  assumes "truthy c" and "encode h t c = Inr out"
  shows "\<exists>payload z. encode_term h t = Inr payload \<and>
           encode h t (CBool False) = Inr (131 # payload) \<and>
           compress h payload (level c) = Inr z \<and>
           out = (if length z + 5 \<le> length payload
                  then [131, 80] @ be32 (length payload) @ z else 131 # payload) \<and>
           length out \<le> length (131 # payload)"
proof -
  from assms(2) obtain payload where p: "encode_term h t = Inr payload"
    by (auto simp: encode_def split: sum.splits)
  from assms p obtain z where z: "compress h payload (level c) = Inr z"
    by (auto simp: encode_def split: sum.splits)
  have off: "encode h t (CBool False) = Inr (131 # payload)"
    using p by (simp add: encode_def)
  have out: "out = (if length z + 5 \<le> length payload
                  then [131, 80] @ be32 (length payload) @ z else 131 # payload)"
    using assms p z by (auto simp: encode_def pack_I_def split: if_splits)
  have "length out \<le> length (131 # payload)"
    unfolding out by simp
  with p off z out show ?thesis by blast
qed

theorem compression_conservative_witness:
  "\<exists>payload z. encode_term sample_host fifteen_zeros = Inr payload \<and>
     encode sample_host fifteen_zeros (CBool False) = Inr (131 # payload) \<and>
     compress sample_host payload 6 = Inr z \<and>
     [131, 80, 0, 0, 0, 18] @ sample_deflated =
       (if length z + 5 \<le> length payload
        then [131, 80] @ be32 (length payload) @ z else 131 # payload) \<and>
     length ([131, 80, 0, 0, 0, 18] @ sample_deflated) \<le> length (131 # payload)"
proof -
  have t: "truthy (CBool True)" by simp
  from compression_conservative [OF t encode_fifteen_zeros_on] show ?thesis by simp
qed

section \<open>What a frame of the encoder decodes to\<close>

lemma attach_simps [simp]: "attach (Inl e) s = Inl e" "attach (Inr v) s = Inr (v, s)"
  by (simp_all add: attach_def)

lemma roundtripsD:
  "roundtrips h t \<Longrightarrow> encode_term h t = Inr bs \<Longrightarrow> decode_term h (bs @ s) = attach (decoded h t) s"
  by (simp add: roundtrips_def)

subsection \<open>Leaves\<close>

lemma take_be32 [simp]: "take 4 (be32 n @ xs) = be32 n" "drop 4 (be32 n @ xs) = xs"
  by simp_all

lemma take_be16 [simp]: "take 2 (be16 n @ xs) = be16 n" "drop 2 (be16 n @ xs) = xs"
  by simp_all

lemma decode_small_int_encoded:
  "0 \<le> n \<Longrightarrow> n \<le> 255 \<Longrightarrow> decode_term h (97 # word_of_int n # s) = Inr (PInt n, s)"
  by (simp add: decode_term_Cons decode_small_integer_def uint_byte_of_int)

lemma decode_integer_encoded:
  "- 2147483648 \<le> n \<Longrightarrow> n \<le> 2147483647 \<Longrightarrow>
   decode_term h (98 # pack_i n @ s) = Inr (PInt n, s)"
proof -
  assume a: "- 2147483648 \<le> n" "n \<le> 2147483647"
  have l: "length (pack_i n) = 4" by (simp add: pack_i_def)
  then have "take 4 (pack_i n @ s) = pack_i n" "drop 4 (pack_i n @ s) = s" by simp_all
  then show ?thesis using a l
    by (simp add: decode_term_Cons decode_integer_def unpack_pack_i)
qed

lemma decode_big_encoded:
  assumes "digits \<noteq> []" and "length digits \<le> 4294967295"
    and "tag = (if length digits \<le> 255 then 110 else 111)"
    and "hdr = (if length digits \<le> 255 then [of_nat (length digits)] else be32 (length digits))"
  shows "decode_big tag (hdr @ [sign] @ digits @ s)
           = Inr (PInt (if sign \<noteq> 0 then - le_val digits else le_val digits), s)"
proof (cases "length digits \<le> 255")
  case True
  have u: "unat (of_nat (length digits) :: byte) = length digits"
    using True by (simp add: unat_byte_of_nat_small)
  show ?thesis using True assms u
    by (simp add: decode_big_def Let_def decode_digits)
next
  case False
  have v: "be_val (be32 (length digits)) = length digits"
    using assms(2) by (simp add: be_val_be32)
  have n: "(be32 (length digits) @ sign # digits @ s) ! 4 = sign"
    by (simp add: nth_append)
  show ?thesis using False assms v n
    by (simp add: decode_big_def Let_def decode_digits)
qed

lemma decode_int_encoded:
  assumes "encode_int n = Inr bs"
  shows "decode_term h (bs @ s) = Inr (PInt n, s)"
proof -
  consider (small) "0 \<le> n \<and> n \<le> 255"
    | (mid) "\<not> (0 \<le> n \<and> n \<le> 255)" "- 2147483648 \<le> n \<and> n \<le> 2147483647"
    | (big) "n < - 2147483648 \<or> 2147483647 < n" by linarith
  then show ?thesis
  proof cases
    case small
    then show ?thesis using assms by (auto simp: encode_int_def decode_small_int_encoded)
  next
    case mid
    then have "bs = 98 # pack_i n" using assms by (auto simp: encode_int_def split: if_splits)
    then show ?thesis using mid by (simp add: decode_integer_encoded)
  next
    case big
    define digits where "digits = int_bytes \<bar>n\<bar>"
    define sign :: byte where "sign = (if 0 \<le> n then 0 else 1)"
    have abs: "(if 0 \<le> n then n else - n) = \<bar>n\<bar>" by simp
    have pos: "0 < \<bar>n\<bar>" using big by auto
    have ne: "digits \<noteq> []" unfolding digits_def by (rule int_bytes_nonempty [OF pos])
    have v: "le_val digits = \<bar>n\<bar>" unfolding digits_def by (rule le_val_int_bytes) simp
    have len: "length digits \<le> 4294967295"
      using assms big by (auto simp: encode_int_def Let_def abs digits_def split: if_splits)
    have bs: "bs = (if length digits \<le> 255 then 110 else 111)
        # (if length digits \<le> 255 then [of_nat (length digits)] else be32 (length digits))
        @ [sign] @ digits"
      using assms big len
      by (auto simp: encode_int_def Let_def abs digits_def sign_def split: if_splits)
    have val: "(if sign \<noteq> 0 then - le_val digits else le_val digits) = n"
      using v big by (auto simp: sign_def)
    have "decode_term h (bs @ s) =
        decode_big (if length digits \<le> 255 then 110 else 111)
          ((if length digits \<le> 255 then [of_nat (length digits)] else be32 (length digits))
            @ [sign] @ digits @ s)"
      unfolding bs by (simp add: decode_term_Cons)
    also have "\<dots> = Inr (PInt (if sign \<noteq> 0 then - le_val digits else le_val digits), s)"
      by (rule decode_big_encoded [OF ne len refl refl])
    finally show ?thesis by (simp only: val)
  qed
qed

lemma decode_float_encoded: "decode_term h (70 # be64 (unat w) @ s) = Inr (PFloat w, s)"
proof -
  have "take 8 (be64 (unat w) @ s) = be64 (unat w)" "drop 8 (be64 (unat w) @ s) = s"
    by simp_all
  then show ?thesis
    by (simp add: decode_term_Cons decode_new_float_def float_bits_roundtrip)
qed

lemma decode_atom_encoded:
  assumes "encode_atom a = Inr bs" and "length a \<le> 255"
  shows "decode_term h (bs @ s) = Inr (atom_image a, s)"
proof -
  have bs: "bs = 100 # be16 (length a) @ a"
    using assms by (simp add: encode_atom_def pack_H_def)
  have v: "be_val (be16 (length a)) = length a" using assms(2) by (simp add: be_val_be16)
  show ?thesis unfolding bs using assms(2) v
    by (simp add: decode_term_Cons decode_atom_def Let_def atom_image_def)
qed

lemma decode_str_encoded:
  assumes "encode_str x = Inr bs"
  shows "decode_term h (bs @ s) = Inr (PStr x, s)"
proof -
  have l: "length x \<le> 4294967295" and bs: "bs = 109 # be32 (length x) @ x"
    using assms by (auto simp: encode_str_def split: if_splits)
  show ?thesis unfolding bs using l
    by (simp add: decode_term_Cons decode_binary_def Let_def be_val_be32)
qed

lemma decode_bit_binary_encoded:
  assumes "encode_term h (PBitBinary x bits) = Inr bs"
  shows "decode_term h (bs @ s) = Inr (PBitBinary x bits, s)"
proof -
  have l: "length x \<le> 4294967295" and b: "0 \<le> bits" "bits \<le> 255"
    and bs: "bs = 77 # be32 (length x) @ [word_of_int bits] @ x"
    using assms by (auto simp: pack_I_def pack_B_def split: if_splits)
  have n: "(be32 (length x) @ word_of_int bits # x @ s) ! 4 = word_of_int bits"
    by (simp add: nth_append)
  show ?thesis unfolding bs using l b n
    by (simp add: decode_term_Cons decode_bit_binary_def Let_def be_val_be32 uint_byte_of_int)
qed

subsection \<open>Sequences, lists and tuples\<close>

lemma array_B_length: "array_B ts = Some bs \<Longrightarrow> length bs = length ts"
  by (induction ts arbitrary: bs) (auto split: option.splits)

lemma string_bytes_length: "string_bytes ts = Some bs \<Longrightarrow> length bs = length ts"
  by (auto simp: string_bytes_def array_B_length split: if_splits)

lemma decode_seq_encoded:
  assumes "\<forall>t\<in>set ts. roundtrips h t" and "join (map (encode_term h) ts) = Inr body"
  shows "decode_seq (decode_term h) (length ts) (body @ s) =
           (case sequence (map (decoded h) ts) of Inl e \<Rightarrow> Inl e | Inr vs \<Rightarrow> Inr (vs, s))"
  using assms
proof (induction ts arbitrary: body)
  case Nil
  then show ?case by simp
next
  case (Cons t ts)
  from Cons.prems(2) obtain a b where
    a: "encode_term h t = Inr a" and b: "join (map (encode_term h) ts) = Inr b" and
    body: "body = a @ b"
    by (auto split: sum.splits)
  have rt: "roundtrips h t" using Cons.prems(1) by simp
  have d: "decode_term h (a @ b @ s) = attach (decoded h t) (b @ s)"
    by (rule roundtripsD [OF rt a])
  have ih: "decode_seq (decode_term h) (length ts) (b @ s) =
      (case sequence (map (decoded h) ts) of Inl e \<Rightarrow> Inl e | Inr vs \<Rightarrow> Inr (vs, s))"
    using Cons.prems(1) by (intro Cons.IH [OF _ b]) simp
  show ?case
  proof (cases "decoded h t")
    case (Inl e)
    then show ?thesis using d by (simp add: body)
  next
    case (Inr v)
    then show ?thesis using d ih by (simp add: body split: sum.splits)
  qed
qed

lemma roundtrips_list:
  assumes "\<forall>t\<in>set ts. roundtrips h t"
  shows "roundtrips h (PList ts)"
  unfolding roundtrips_def
proof (intro allI impI)
  fix bs s
  assume e: "encode_term h (PList ts) = Inr bs"
  show "decode_term h (bs @ s) = attach (decoded h (PList ts)) s"
  proof (cases "ts = []")
    case True
    then show ?thesis using e
      by (auto simp: encode_list_def string_bytes_def decode_term_Cons)
  next
    case False
    define n where "n = length ts"
    show ?thesis
    proof (cases "if n \<le> 65535 then string_bytes ts else None")
      case (Some sb)
      then have small: "n \<le> 65535" and sb: "string_bytes ts = Some sb"
        by (auto split: if_splits)
      have l: "length sb = n" using string_bytes_length [OF sb] by (simp add: n_def)
      have bs: "bs = 107 # be16 n @ sb"
        using e False small sb l by (simp add: encode_list_def n_def)
      have dec: "decoded h (PList ts) = Inr (PList (map (\<lambda>b. PInt (uint b)) sb))"
        using small sb by (simp add: n_def)
      show ?thesis unfolding bs dec using small l
        by (simp add: decode_term_Cons decode_string_def Let_def be_val_be16)
    next
      case None
      have enc: "encode_term h (PList ts) =
          (if n > 4294967295 then Inl (ValueError ''invalid list length'')
           else (case join (map (encode_term h) ts) of Inl e \<Rightarrow> Inl e
                 | Inr b \<Rightarrow> Inr (108 # be32 n @ b @ [106])))"
        unfolding n_def using None [unfolded n_def] False
        by (auto simp: encode_list_def Let_def split: if_splits)
      from e enc obtain body where
        j: "join (map (encode_term h) ts) = Inr body" and
        bs: "bs = 108 # be32 n @ body @ [106]" and big: "n \<le> 4294967295"
        by (auto split: if_splits sum.splits)
      have dec: "decoded h (PList ts) =
          (case sequence (map (decoded h) ts) of Inl e \<Rightarrow> Inl e | Inr vs \<Rightarrow> Inr (PList vs))"
        using None by (simp add: n_def)
      have sq: "decode_seq (decode_term h) n (body @ 106 # s) =
          (case sequence (map (decoded h) ts) of Inl e \<Rightarrow> Inl e | Inr vs \<Rightarrow> Inr (vs, 106 # s))"
        unfolding n_def by (rule decode_seq_encoded [OF assms j])
      have nil: "decode_term h (106 # s) = Inr (PList [], s)"
        by (simp add: decode_term_Cons)
      show ?thesis unfolding bs dec using big sq nil
        by (simp add: decode_term_Cons decode_list_def be_val_be32 split: sum.splits)
    qed
  qed
qed

lemma roundtrips_tuple:
  assumes "\<forall>t\<in>set ts. roundtrips h t"
  shows "roundtrips h (PTuple ts)"
  unfolding roundtrips_def
proof (intro allI impI)
  fix bs s
  assume e: "encode_term h (PTuple ts) = Inr bs"
  define n where "n = length ts"
  from e obtain header body where
    hd: "tuple_header n = Inr header" and
    j: "join (map (encode_term h) ts) = Inr body" and bs: "bs = header @ body"
    by (auto simp: n_def split: sum.splits)
  have sq: "decode_seq (decode_term h) n (body @ s) =
      (case sequence (map (decoded h) ts) of Inl e \<Rightarrow> Inl e | Inr vs \<Rightarrow> Inr (vs, s))"
    unfolding n_def by (rule decode_seq_encoded [OF assms j])
  have "decode_term h (header @ body @ s) =
      (case decode_seq (decode_term h) n (body @ s) of Inl e \<Rightarrow> Inl e
       | Inr (lst, tail) \<Rightarrow>
           if length lst = 2 \<and> py_eq_str (lst ! 0) python_pickle
           then (case loads h (lst ! 1) of Inl e \<Rightarrow> Inl e | Inr obj \<Rightarrow> Inr (obj, tail))
           else Inr (PTuple lst, tail))"
  proof (cases "n \<le> 255")
    case True
    then have "header = [104, of_nat n]" using hd by (simp add: tuple_header_def)
    then show ?thesis using True
      by (simp add: decode_term_Cons decode_tuple_def unat_byte_of_nat_small)
  next
    case False
    then have "header = 105 # be32 n" and "n \<le> 4294967295"
      using hd by (auto simp: tuple_header_def split: if_splits)
    then show ?thesis
      by (simp add: decode_term_Cons decode_tuple_def be_val_be32)
  qed
  then show "decode_term h (bs @ s) = attach (decoded h (PTuple ts)) s"
    unfolding bs sq by (simp add: attach_def split: sum.splits)
qed

subsection \<open>Identifiers, exports, host objects and unicode strings\<close>

lemma roundtrips_pid:
  assumes "roundtrips h node" and "length ident = 4"
  shows "roundtrips h (PPid node ident serial creation)"
  unfolding roundtrips_def
proof (intro allI impI)
  fix bs s
  assume e: "encode_term h (PPid node ident serial creation) = Inr bs"
  from e obtain nb where nb: "encode_term h node = Inr nb" by (auto split: sum.splits)
  from e nb have ser: "length serial = 4" and cr: "0 \<le> creation" "creation \<le> 255"
    and bs: "bs = 103 # nb @ ident @ serial @ [word_of_int creation]"
    by (auto simp: chr_format_def split: if_splits)
  have d: "decode_term h (nb @ ident @ serial @ word_of_int creation # s)
      = attach (decoded h node) (ident @ serial @ word_of_int creation # s)"
    by (rule roundtripsD [OF assms(1) nb])
  have n8: "(ident @ serial @ word_of_int creation # s) ! 8 = word_of_int creation"
    using assms(2) ser by (simp add: nth_append)
  show "decode_term h (bs @ s) = attach (decoded h (PPid node ident serial creation)) s"
    unfolding bs using d n8 assms(2) ser cr
    by (cases "decoded h node") (simp_all add: decode_term_Cons decode_pid_def uint_byte_of_int)
qed

lemma roundtrips_port:
  assumes "roundtrips h node"
  shows "roundtrips h (PPort node ident creation)"
  unfolding roundtrips_def
proof (intro allI impI)
  fix bs s
  assume e: "encode_term h (PPort node ident creation) = Inr bs"
  from e obtain nb where nb: "encode_term h node = Inr nb" by (auto split: sum.splits)
  from e nb have idl: "length ident = 4" and cr: "0 \<le> creation" "creation \<le> 255"
    and bs: "bs = 102 # nb @ ident @ [word_of_int creation]"
    by (auto simp: chr_format_def split: if_splits)
  have d: "decode_term h (nb @ ident @ word_of_int creation # s)
      = attach (decoded h node) (ident @ word_of_int creation # s)"
    by (rule roundtripsD [OF assms(1) nb])
  have n4: "(ident @ word_of_int creation # s) ! 4 = word_of_int creation"
    using idl by (simp add: nth_append)
  show "decode_term h (bs @ s) = attach (decoded h (PPort node ident creation)) s"
    unfolding bs using d n4 idl cr
    by (cases "decoded h node") (simp_all add: decode_term_Cons decode_port_def uint_byte_of_int)
qed

lemma roundtrips_reference:
  assumes "roundtrips h node" and "length ident mod 4 = 0"
  shows "roundtrips h (PReference node ident creation)"
  unfolding roundtrips_def
proof (intro allI impI)
  fix bs s
  assume e: "encode_term h (PReference node ident creation) = Inr bs"
  define num where "num = length ident div 4"
  from e obtain nb where nb: "encode_term h node = Inr nb" by (auto split: sum.splits)
  from e nb have num: "num \<le> 65535" and cr: "0 \<le> creation" "creation \<le> 255"
    and bs: "bs = 114 # be16 num @ nb @ [word_of_int creation] @ ident"
    by (auto simp: chr_format_def pack_H_def num_def split: if_splits)
  have len: "num * 4 = length ident" using assms(2) by (auto simp: num_def)
  have d: "decode_term h (nb @ word_of_int creation # ident @ s)
      = attach (decoded h node) (word_of_int creation # ident @ s)"
    by (rule roundtripsD [OF assms(1) nb])
  show "decode_term h (bs @ s) = attach (decoded h (PReference node ident creation)) s"
    unfolding bs using d len num cr
    by (cases "decoded h node")
       (simp_all add: decode_term_Cons decode_new_reference_def Let_def be_val_be16
         uint_byte_of_int)
qed

lemma roundtrips_export:
  assumes "roundtrips h m" and "roundtrips h f" and "roundtrips h a"
  shows "roundtrips h (PExport m f a)"
  unfolding roundtrips_def
proof (intro allI impI)
  fix bs s
  assume e: "encode_term h (PExport m f a) = Inr bs"
  from e obtain mb fb ab where
    mb: "encode_term h m = Inr mb" and fb: "encode_term h f = Inr fb" and
    ab: "encode_term h a = Inr ab" and bs: "bs = 113 # mb @ fb @ ab"
    by (auto split: sum.splits)
  have d1: "decode_term h (mb @ fb @ ab @ s) = attach (decoded h m) (fb @ ab @ s)"
    by (rule roundtripsD [OF assms(1) mb])
  have d2: "decode_term h (fb @ ab @ s) = attach (decoded h f) (ab @ s)"
    by (rule roundtripsD [OF assms(2) fb])
  have d3: "decode_term h (ab @ s) = attach (decoded h a) s"
    by (rule roundtripsD [OF assms(3) ab])
  show "decode_term h (bs @ s) = attach (decoded h (PExport m f a)) s"
    unfolding bs using d1 d2 d3
    by (cases "decoded h m"; cases "decoded h f"; cases "decoded h a")
       (simp_all add: decode_term_Cons decode_export_def)
qed

lemma python_pickle_not_reserved:
  "python_pickle \<noteq> atom_true" "python_pickle \<noteq> atom_false" "python_pickle \<noteq> atom_none"
  "length python_pickle = 13"
  by (simp_all add: python_pickle_def atom_true_def atom_false_def atom_none_def)

lemma roundtrips_object: "roundtrips h (PObject obj)"
  unfolding roundtrips_def
proof (intro allI impI)
  fix bs s
  assume e: "encode_term h (PObject obj) = Inr bs"
  from e obtain data where data: "dumps h obj = Some data" by (auto split: option.splits)
  from e data obtain ab sb where
    ab: "encode_atom python_pickle = Inr ab" and sb: "encode_str data = Inr sb" and
    bs: "bs = [104, 2] @ ab @ sb"
    by (auto simp: tuple_header_def split: sum.splits)
  have d1: "decode_term h (ab @ sb @ s) = Inr (PAtom python_pickle, sb @ s)"
    using decode_atom_encoded [OF ab, of h "sb @ s"]
    by (simp add: atom_image_def python_pickle_not_reserved)
  have d2: "decode_term h (sb @ s) = Inr (PStr data, s)"
    by (rule decode_str_encoded [OF sb])
  have sq: "decode_seq (decode_term h) 2 (ab @ sb @ s) = Inr ([PAtom python_pickle, PStr data], s)"
    using d1 d2 by (simp add: decode_seq_unfold)
  show "decode_term h (bs @ s) = attach (decoded h (PObject obj)) s"
    unfolding bs using sq data
    by (simp add: decode_term_Cons decode_tuple_def attach_def)
qed

lemma roundtrips_int: "roundtrips h (PInt n)"
  by (simp add: roundtrips_def decode_int_encoded)

lemma roundtrips_unicode: "roundtrips h (PUnicode cs)"
  unfolding roundtrips_def
proof (intro allI impI)
  fix bs s
  assume e: "encode_term h (PUnicode cs) = Inr bs"
  show "decode_term h (bs @ s) = attach (decoded h (PUnicode cs)) s"
  proof (cases "cs = []")
    case True
    then show ?thesis using e by (auto simp: decode_term_Cons)
  next
    case False
    show ?thesis
    proof (cases "length cs \<le> 65535 \<and> list_all (\<lambda>c. c \<le> 255) cs")
      case True
      then have bs: "bs = 107 # be16 (length cs) @ map of_nat cs"
        using e False by simp
      have "map (\<lambda>b. PInt (uint b)) (map of_nat cs :: bytes) = map (\<lambda>c. PInt (int c)) cs"
        using True
        by (auto simp: list_all_iff uint_nat unat_byte_of_nat_small simp del: of_nat_unat)
      then show ?thesis unfolding bs using True
        by (simp add: decode_term_Cons decode_string_def Let_def be_val_be16)
    next
      case long: False
      let ?ts = "map (\<lambda>c. PInt (int c)) cs"
      have "join (map (\<lambda>c. encode_int (int c)) cs) = join (map (encode_term h) ?ts)"
        by (simp add: comp_def)
      then have enc: "encode_term h (PList ?ts) = Inr bs"
        using e False long by (auto split: if_splits)
      have "roundtrips h (PList ?ts)"
        by (rule roundtrips_list) (auto simp: roundtrips_int)
      from roundtripsD [OF this enc, of s]
      have d: "decode_term h (bs @ s) = attach (decoded h (PList ?ts)) s" .
      have ints: "decoded h (PList ?ts) = Inr (PList ?ts)"
      proof (cases "if length ?ts \<le> 65535 then string_bytes ?ts else None")
        case None
        have "sequence (map (decoded h) ?ts) = Inr ?ts" by (induction cs) simp_all
        then show ?thesis using None by simp
      next
        case (Some sb)
        then have sb: "string_bytes ?ts = Some sb" and "length cs \<le> 65535"
          by (auto split: if_splits)
        have "array_B ?ts = Some sb" using sb by (auto simp: string_bytes_def split: if_splits)
        then have "list_all (\<lambda>c. c \<le> 255) cs"
          by (induction cs arbitrary: sb) (auto split: if_splits option.splits)
        then show ?thesis using long \<open>length cs \<le> 65535\<close> by simp
      qed
      show ?thesis using d ints by simp
    qed
  qed
qed

subsection \<open>Every encoding decodes to the image of its term\<close>

lemma decode_encoded: "wf_term t \<Longrightarrow> roundtrips h t"
proof (induction t)
  case (PInt n)
  show ?case by (rule roundtrips_int)
next
  case (PFloat w)
  show ?case by (auto simp: roundtrips_def decode_float_encoded)
next
  case (PAtom a)
  then show ?case by (simp add: roundtrips_def decode_atom_encoded)
next
  case (PBitBinary x bits)
  show ?case by (simp add: roundtrips_def decode_bit_binary_encoded del: encode_term.simps)
next
  case (PStr x)
  show ?case by (simp add: roundtrips_def decode_str_encoded)
next
  case (PUnicode cs)
  show ?case by (rule roundtrips_unicode)
next
  case (PBool b)
  have "atom_image atom_true = PBool True" "atom_image atom_false = PBool False"
    by (simp_all add: atom_image_def atom_true_def atom_false_def)
  moreover have "length atom_true \<le> 255" "length atom_false \<le> 255"
    by (simp_all add: atom_true_def atom_false_def)
  ultimately show ?case
    using decode_atom_encoded [of atom_true _ h] decode_atom_encoded [of atom_false _ h]
    by (cases b) (simp_all add: roundtrips_def)
next
  case PNone
  have l4: "length atom_none = 4" by (simp add: atom_none_def)
  have "encode_atom atom_none = Inr (100 # be16 4 @ atom_none)"
    by (simp add: encode_atom_def pack_H_def l4)
  moreover have "atom_image atom_none = PNone"
    by (simp add: atom_image_def atom_true_def atom_false_def atom_none_def)
  moreover have "length atom_none \<le> 255" by (simp add: atom_none_def)
  ultimately show ?case
    using decode_atom_encoded [of atom_none "100 # be16 4 @ atom_none" h]
    by (simp add: roundtrips_def)
next
  case (PList ts)
  have "\<forall>t\<in>set ts. roundtrips h t"
    using PList by (auto simp: list_all_iff)
  then show ?case by (rule roundtrips_list)
next
  case (PTuple ts)
  have "\<forall>t\<in>set ts. roundtrips h t"
    using PTuple by (auto simp: list_all_iff)
  then show ?case by (rule roundtrips_tuple)
next
  case (PPid node ident serial creation)
  then show ?case by (intro roundtrips_pid) simp_all
next
  case (PReference node ident creation)
  then show ?case by (intro roundtrips_reference) simp_all
next
  case (PPort node ident creation)
  then show ?case by (intro roundtrips_port) simp_all
next
  case (PExport m f a)
  then show ?case by (intro roundtrips_export) simp_all
next
  case (PObject obj)
  show ?case by (rule roundtrips_object)
qed

lemma decode_term_encoded:
  "wf_term t \<Longrightarrow> encode_term h t = Inr bs \<Longrightarrow>
   decode_term h (bs @ s) = attach (decoded h t) s"
  by (rule roundtripsD [OF decode_encoded])

subsection \<open>The first byte of a payload\<close>

lemma encode_list_tag:
  "encode_list ts body = Inr bs \<Longrightarrow> \<exists>tag rest. bs = tag # rest \<and> tag \<noteq> 80"
  by (auto simp: encode_list_def Let_def split: if_splits sum.splits option.splits)

lemma encode_int_tag: "encode_int n = Inr bs \<Longrightarrow> \<exists>tag rest. bs = tag # rest \<and> tag \<noteq> 80"
  by (auto simp: encode_int_def Let_def split: if_splits)

lemma encode_atom_tag: "encode_atom a = Inr bs \<Longrightarrow> \<exists>tag rest. bs = tag # rest \<and> tag \<noteq> 80"
  by (auto simp: encode_atom_def split: sum.splits)

lemma encode_term_tag:
  assumes e: "encode_term h t = Inr bs"
  shows "\<exists>tag rest. bs = tag # rest \<and> tag \<noteq> 80"
proof (cases t)
  case (PInt n)
  then show ?thesis using e encode_int_tag [of n bs] by simp
next
  case (PFloat w)
  then show ?thesis using e by auto
next
  case (PAtom a)
  then show ?thesis using e encode_atom_tag [of a bs] by simp
next
  case (PBitBinary x bits)
  then show ?thesis using e by (auto split: sum.splits)
next
  case (PStr x)
  then show ?thesis using e by (auto simp: encode_str_def split: if_splits)
next
  case (PUnicode cs)
  then show ?thesis
    using e encode_list_tag [of "map (\<lambda>c. PInt (int c)) cs" "join (map (\<lambda>c. encode_int (int c)) cs)" bs]
    by (auto split: if_splits)
next
  case (PBool b)
  then show ?thesis
    using e encode_atom_tag [of atom_true bs] encode_atom_tag [of atom_false bs]
    by (cases b) simp_all
next
  case PNone
  then show ?thesis using e by auto
next
  case (PList ts)
  then show ?thesis using e encode_list_tag [of ts "join (map (encode_term h) ts)" bs] by simp
next
  case (PTuple ts)
  then show ?thesis using e
    by (auto simp: tuple_header_def split: sum.splits if_splits)
next
  case (PPid node ident serial creation)
  then show ?thesis using e by (auto split: sum.splits if_splits)
next
  case (PReference node ident creation)
  then show ?thesis using e by (auto split: sum.splits)
next
  case (PPort node ident creation)
  then show ?thesis using e by (auto split: sum.splits if_splits)
next
  case (PExport m f a)
  then show ?thesis using e by (auto split: sum.splits)
next
  case (PObject obj)
  then show ?thesis using e
    by (auto simp: tuple_header_def split: option.splits sum.splits)
qed

lemma decode_uncompressed:
  "tag \<noteq> 80 \<Longrightarrow> decode h (131 # tag # rest) = decode_term h (tag # rest)"
  by (simp add: decode_def)

section \<open>Round trip\<close>

lemma sequence_Inr: "(\<forall>t\<in>set ts. f t = Inr t) \<Longrightarrow> sequence (map f ts) = Inr ts"
  by (induction ts) simp_all

lemma array_B_native:
  "array_B ts = Some sb \<Longrightarrow> list_all native ts \<Longrightarrow> map (\<lambda>b. PInt (uint b)) sb = ts"
proof (induction ts arbitrary: sb)
  case Nil
  then show ?case by simp
next
  case (Cons t ts)
  from Cons.prems obtain b bs where
    b: "array_B_item t = Some b" and bs: "array_B ts = Some bs" and sb: "sb = b # bs"
    by (auto split: option.splits)
  have "PInt (uint b) = t"
    using b Cons.prems(2) by (cases t) (auto simp: uint_byte_of_int split: if_splits)
  moreover have "map (\<lambda>b. PInt (uint b)) bs = ts"
    using Cons.IH [OF bs] Cons.prems(2) by simp
  ultimately show ?case by (simp add: sb)
qed

lemma decoded_native: "native t \<Longrightarrow> decoded h t = Inr t"
proof (induction t)
  case (PList ts)
  have all: "\<forall>t\<in>set ts. decoded h t = Inr t" using PList by (auto simp: list_all_iff)
  show ?case
  proof (cases "if length ts \<le> 65535 then string_bytes ts else None")
    case None
    then show ?thesis using sequence_Inr [OF all] by simp
  next
    case (Some sb)
    then have "array_B ts = Some sb" by (auto simp: string_bytes_def split: if_splits)
    then have "map (\<lambda>b. PInt (uint b)) sb = ts"
      using PList.prems by (intro array_B_native) simp_all
    then show ?thesis using Some by simp
  qed
next
  case (PTuple ts)
  have all: "\<forall>t\<in>set ts. decoded h t = Inr t" using PTuple by (auto simp: list_all_iff)
  show ?case using sequence_Inr [OF all] PTuple.prems by auto
next
  case (PAtom s)
  then show ?case by (simp add: atom_image_def)
qed simp_all

text \<open>
  C1 (as stated, false). The claim: every term without Booleans and \<^verbatim>\<open>None\<close>, in
  particular every atom, also the atoms named true, false and none, decodes from its
  encoding to itself. The atom named true is encoded as an atom and decoded as the
  Boolean \<open>True\<close>.
\<close>

theorem atom_true_counterexample:
  "encode sample_host (PAtom atom_true) (CBool False) = Inr [131, 100, 0, 4, 116, 114, 117, 101] \<and>
   decode sample_host [131, 100, 0, 4, 116, 114, 117, 101] = Inr (PBool True, []) \<and>
   PBool True \<noteq> PAtom atom_true"
  by (simp add: encode_def decode_def encode_atom_def pack_H_def be16_def atom_true_def
      decode_term_Cons decode_atom_def)

text \<open>
  C1 (amended). For every well-formed term built from integers, floats, atoms other
  than true, false and none, bit binaries, binaries, lists, tuples other than a pair
  headed by the string \<open>python_pickle\<close>, Pids, References, Ports and Exports, whenever
  the uncompressed encoding succeeds, decoding it returns the same term and an empty
  tail.
\<close>

theorem native_roundtrip:
  assumes "wf_term t" and "native t" and "encode h t (CBool False) = Inr f"
  shows "decode h f = Inr (t, [])"
proof -
  from assms(3) obtain bs where bs: "encode_term h t = Inr bs" and f: "f = 131 # bs"
    by (auto simp: encode_def split: sum.splits)
  from encode_term_tag [OF bs] obtain tag rest where tr: "bs = tag # rest" "tag \<noteq> 80"
    by blast
  have "decode_term h (bs @ []) = attach (decoded h t) []"
    by (rule decode_term_encoded [OF assms(1) bs])
  then have "decode_term h bs = Inr (t, [])"
    using decoded_native [OF assms(2), of h] by simp
  then show ?thesis using tr by (simp add: f decode_uncompressed)
qed

lemma encode_sample_term: "encode h sample_term (CBool False) = Inr sample_frame"
  by (simp add: encode_def sample_term_def sample_frame_def tuple_header_def encode_atom_def
      pack_H_def be16_def be32_def encode_int_def pack_i_def encode_list_def string_bytes_def
      chr_format_def)

theorem native_roundtrip_witness: "decode sample_host sample_frame = Inr (sample_term, [])"
proof -
  have w: "wf_term sample_term" by (simp add: sample_term_def)
  have n: "native sample_term"
    by (simp add: sample_term_def atom_true_def atom_false_def atom_none_def)
  show ?thesis by (rule native_roundtrip [OF w n encode_sample_term])
qed

section \<open>Tail preservation\<close>

text \<open>
  The decoder reads every term of the wire format, followed by any bytes, as the value
  it stands for, and returns those bytes.
\<close>

lemma decode_wire:
  "wire h p v \<Longrightarrow> decode_term h (p @ s) = Inr (v, s)"
  "wire_seq h ps vs \<Longrightarrow> decode_seq (decode_term h) (length vs) (ps @ s) = Inr (vs, s)"
proof (induction arbitrary: s and s rule: wire_wire_seq.inducts)
  case (small_integer_ext b)
  show ?case by (simp add: decode_term_Cons decode_small_integer_def)
next
  case (integer_ext bs)
  then show ?case by (simp add: decode_term_Cons decode_integer_def)
next
  case (new_float_ext bs)
  then show ?case by (simp add: decode_term_Cons decode_new_float_def)
next
  case (float_ext bs w)
  then show ?case by (simp add: decode_term_Cons decode_float_def)
next
  case (atom_ext name)
  then show ?case
    by (simp add: decode_term_Cons decode_atom_def Let_def be_val_be16 atom_image_def)
next
  case nil_ext
  show ?case by (simp add: decode_term_Cons)
next
  case (string_ext bs)
  then show ?case
    by (simp add: decode_term_Cons decode_string_def Let_def be_val_be16)
next
  case (list_ext vs body tlb tv)
  have "decode_seq (decode_term h) (length vs) (body @ tlb @ s) = Inr (vs, tlb @ s)"
    by (rule list_ext.IH(2))
  moreover have "decode_term h (tlb @ s) = Inr (tv, s)" by (rule list_ext.IH(4))
  ultimately show ?case using list_ext.hyps(1)
    by (simp add: decode_term_Cons decode_list_def be_val_be32)
next
  case (binary_ext bs)
  then show ?case
    by (simp add: decode_term_Cons decode_binary_def Let_def be_val_be32)
next
  case (small_tuple_ext vs body v)
  have "decode_seq (decode_term h) (length vs) (body @ s) = Inr (vs, s)"
    by (rule small_tuple_ext.IH(2))
  then show ?case using small_tuple_ext
    by (auto simp: decode_term_Cons decode_tuple_def unat_byte_of_nat_small tuple_value_def
        split: if_splits)
next
  case (large_tuple_ext vs body v)
  have "decode_seq (decode_term h) (length vs) (body @ s) = Inr (vs, s)"
    by (rule large_tuple_ext.IH(2))
  then show ?case using large_tuple_ext
    by (auto simp: decode_term_Cons decode_tuple_def be_val_be32 tuple_value_def
        split: if_splits)
next
  case (small_big_ext digits sign)
  then show ?case
    by (simp add: decode_term_Cons decode_big_def Let_def decode_digits unat_byte_of_nat_small)
next
  case (large_big_ext digits sign)
  have n: "(be32 (length digits) @ sign # digits @ s) ! 4 = sign" by (simp add: nth_append)
  show ?case using large_big_ext n
    by (simp add: decode_term_Cons decode_big_def Let_def decode_digits be_val_be32)
next
  case (bit_binary_ext bs bits)
  have n: "(be32 (length bs) @ bits # bs @ s) ! 4 = bits" by (simp add: nth_append)
  show ?case using bit_binary_ext n
    by (simp add: decode_term_Cons decode_bit_binary_def Let_def be_val_be32)
next
  case (pid_ext nb node ident serial c)
  have "decode_term h (nb @ ident @ serial @ c # s) = Inr (node, ident @ serial @ c # s)"
    by (rule pid_ext.IH(2))
  moreover have "(ident @ serial @ c # s) ! 8 = c"
    using pid_ext.hyps by (simp add: nth_append)
  ultimately show ?case using pid_ext.hyps
    by (simp add: decode_term_Cons decode_pid_def)
next
  case (reference_ext nb node ident c)
  have "decode_term h (nb @ ident @ c # s) = Inr (node, ident @ c # s)"
    by (rule reference_ext.IH(2))
  moreover have "(ident @ c # s) ! 4 = c" using reference_ext.hyps by (simp add: nth_append)
  ultimately show ?case using reference_ext.hyps
    by (simp add: decode_term_Cons decode_reference_def)
next
  case (port_ext nb node ident c)
  have "decode_term h (nb @ ident @ c # s) = Inr (node, ident @ c # s)"
    by (rule port_ext.IH(2))
  moreover have "(ident @ c # s) ! 4 = c" using port_ext.hyps by (simp add: nth_append)
  ultimately show ?case using port_ext.hyps
    by (simp add: decode_term_Cons decode_port_def)
next
  case (new_reference_ext nb node ident k c)
  have "decode_term h (nb @ c # ident @ s) = Inr (node, c # ident @ s)"
    by (rule new_reference_ext.IH(2))
  then show ?case using new_reference_ext.hyps
    by (simp add: decode_term_Cons decode_new_reference_def Let_def be_val_be16 mult.commute)
next
  case (export_ext mb m fb f ab a)
  have "decode_term h (mb @ fb @ ab @ s) = Inr (m, fb @ ab @ s)" by (rule export_ext.IH(2))
  moreover have "decode_term h (fb @ ab @ s) = Inr (f, ab @ s)" by (rule export_ext.IH(4))
  moreover have "decode_term h (ab @ s) = Inr (a, s)" by (rule export_ext.IH(6))
  ultimately show ?case by (simp add: decode_term_Cons decode_export_def)
next
  case seq_nil
  show ?case by simp
next
  case (seq_cons p v ps vs)
  have "decode_term h (p @ ps @ s) = Inr (v, ps @ s)" by (rule seq_cons.IH(2))
  moreover have "decode_seq (decode_term h) (length vs) (ps @ s) = Inr (vs, s)"
    by (rule seq_cons.IH(4))
  ultimately show ?case by simp
qed

lemma wire_tag: "wire h p v \<Longrightarrow> \<exists>tag rest. p = tag # rest \<and> tag \<noteq> 80"
  by (erule wire.cases) simp_all



text \<open>
  A big integer without digits is outside the wire format above, because the decoder
  reads its value from the bytes that follow it; the tail it returns is still the
  suffix.
\<close>

lemma zero_digit_big_tail:
  "\<exists>v. decode h ([131, 110, 0, sign] @ s) = Inr (v, s)"
  by (simp add: decode_def decode_term_Cons decode_big_def Let_def)

subsection \<open>The frames of the encoder are valid\<close>

text \<open>
  Every payload that \<open>encode_term\<close> returns for a well-formed term is a term of the
  wire format, standing for the image of the term under \<open>decoded\<close> where that is
  defined (where the bridge, if the term needs it, accepts its payload). So every frame
  of \<open>encode\<close>, in either framing, is a valid frame, given that the host's
  \<^verbatim>\<open>decompressobj\<close> inflates what its \<^verbatim>\<open>compress\<close> returned.
\<close>

lemma join_wire_seq:
  assumes "\<forall>t\<in>set ts. \<forall>bs v. encode_term h t = Inr bs \<longrightarrow> decoded h t = Inr v \<longrightarrow> wire h bs v"
    and "join (map (encode_term h) ts) = Inr body"
    and "sequence (map (decoded h) ts) = Inr vs"
  shows "wire_seq h body vs \<and> length vs = length ts"
  using assms
proof (induction ts arbitrary: body vs)
  case Nil
  then show ?case by (simp add: wire_wire_seq.seq_nil)
next
  case (Cons t ts)
  from Cons.prems(2) obtain a b where
    a: "encode_term h t = Inr a" and b: "join (map (encode_term h) ts) = Inr b" and
    body: "body = a @ b"
    by (auto split: sum.splits)
  from Cons.prems(3) obtain v vs1 where
    v: "decoded h t = Inr v" and vs1: "sequence (map (decoded h) ts) = Inr vs1" and
    vs: "vs = v # vs1"
    by (auto split: sum.splits)
  have "wire h a v" using Cons.prems(1) a v by simp
  moreover have "wire_seq h b vs1 \<and> length vs1 = length ts"
    using Cons.IH [OF _ b vs1] Cons.prems(1) by simp
  ultimately show ?case by (simp add: body vs wire_wire_seq.seq_cons)
qed

lemma encode_int_wire:
  assumes "encode_int n = Inr bs"
  shows "wire h bs (PInt n)"
proof -
  consider (small) "0 \<le> n \<and> n \<le> 255"
    | (mid) "\<not> (0 \<le> n \<and> n \<le> 255)" "- 2147483648 \<le> n \<and> n \<le> 2147483647"
    | (big) "n < - 2147483648 \<or> 2147483647 < n" by linarith
  then show ?thesis
  proof cases
    case small
    then have "bs = [97, word_of_int n]" using assms by (auto simp: encode_int_def)
    moreover have "wire h [97, word_of_int n] (PInt (uint (word_of_int n :: byte)))"
      by (rule wire_wire_seq.small_integer_ext)
    ultimately show ?thesis using small by (simp add: uint_byte_of_int)
  next
    case mid
    then have "bs = 98 # pack_i n" using assms by (auto simp: encode_int_def split: if_splits)
    moreover have "wire h (98 # pack_i n) (PInt (unpack_i (pack_i n)))"
      by (rule wire_wire_seq.integer_ext) (simp add: pack_i_def)
    ultimately show ?thesis using mid by (simp add: unpack_pack_i)
  next
    case big
    define digits where "digits = int_bytes \<bar>n\<bar>"
    define sign :: byte where "sign = (if 0 \<le> n then 0 else 1)"
    have abs: "(if 0 \<le> n then n else - n) = \<bar>n\<bar>" by simp
    have pos: "0 < \<bar>n\<bar>" using big by auto
    have ne: "digits \<noteq> []" unfolding digits_def by (rule int_bytes_nonempty [OF pos])
    have v: "le_val digits = \<bar>n\<bar>" unfolding digits_def by (rule le_val_int_bytes) simp
    have len: "length digits \<le> 4294967295"
      using assms big by (auto simp: encode_int_def Let_def abs digits_def split: if_splits)
    have val: "(if sign \<noteq> 0 then - le_val digits else le_val digits) = n"
      using v big by (auto simp: sign_def)
    show ?thesis
    proof (cases "length digits \<le> 255")
      case True
      then have "bs = 110 # of_nat (length digits) # sign # digits"
        using assms big
        by (auto simp: encode_int_def Let_def abs digits_def sign_def split: if_splits)
      moreover have "wire h (110 # of_nat (length digits) # sign # digits)
          (PInt (if sign \<noteq> 0 then - le_val digits else le_val digits))"
        by (rule wire_wire_seq.small_big_ext [OF ne True])
      ultimately show ?thesis by (simp only: val)
    next
      case False
      then have "bs = 111 # be32 (length digits) @ sign # digits"
        using assms big len
        by (auto simp: encode_int_def Let_def abs digits_def sign_def split: if_splits)
      moreover have "wire h (111 # be32 (length digits) @ sign # digits)
          (PInt (if sign \<noteq> 0 then - le_val digits else le_val digits))"
        by (rule wire_wire_seq.large_big_ext [OF ne len])
      ultimately show ?thesis by (simp only: val)
    qed
  qed
qed

lemma encode_atom_wire:
  "length s \<le> 255 \<Longrightarrow> encode_atom s = Inr bs \<Longrightarrow> wire h bs (atom_image s)"
  by (auto simp: encode_atom_def pack_H_def intro: wire_wire_seq.atom_ext)

lemma encode_str_wire: "encode_str s = Inr bs \<Longrightarrow> wire h bs (PStr s)"
  by (auto simp: encode_str_def intro: wire_wire_seq.binary_ext split: if_splits)

lemma encode_list_wire:
  assumes ts: "ts \<noteq> [] \<longrightarrow> (if length ts \<le> 65535 then string_bytes ts else None) = None \<longrightarrow>
      (\<forall>b. body = Inr b \<longrightarrow> wire_seq h b vs \<and> length vs = length ts)"
    and e: "encode_list ts body = Inr bs"
    and v: "v = (case (if length ts \<le> 65535 then string_bytes ts else None) of
                   Some sb \<Rightarrow> PList (map (\<lambda>b. PInt (uint b)) sb)
                 | None \<Rightarrow> PList vs)"
  shows "wire h bs v"
proof (cases "ts = []")
  case True
  then show ?thesis using e v
    by (auto simp: encode_list_def string_bytes_def wire_wire_seq.nil_ext)
next
  case False
  show ?thesis
  proof (cases "if length ts \<le> 65535 then string_bytes ts else None")
    case (Some sb)
    then have sb: "string_bytes ts = Some sb" and n: "length ts \<le> 65535"
      by (auto split: if_splits)
    have l: "length sb = length ts" by (rule string_bytes_length [OF sb])
    have "bs = 107 # be16 (length sb) @ sb"
      using e False sb n l by (simp add: encode_list_def Let_def)
    moreover have "wire h (107 # be16 (length sb) @ sb) (PList (map (\<lambda>b. PInt (uint b)) sb))"
      by (rule wire_wire_seq.string_ext) (simp add: l n)
    ultimately show ?thesis using v Some by simp
  next
    case None
    then have le: "encode_list ts body =
        (if length ts > 4294967295 then Inl (ValueError ''invalid list length'')
         else (case body of Inl e \<Rightarrow> Inl e
               | Inr b \<Rightarrow> Inr (108 # be32 (length ts) @ b @ [106])))"
      using False
      by (auto simp: encode_list_def Let_def split: if_splits option.splits sum.splits)
    from e le obtain b where b: "body = Inr b" and n: "length ts \<le> 4294967295"
      and bs: "bs = 108 # be32 (length ts) @ b @ [106]"
      by (auto split: if_splits sum.splits)
    from ts False None b have w: "wire_seq h b vs" and l: "length vs = length ts" by simp_all
    have "wire h (108 # be32 (length vs) @ b @ [106]) (PList vs)"
      by (rule wire_wire_seq.list_ext [OF _ w wire_wire_seq.nil_ext]) (simp add: l n)
    then show ?thesis using v None by (simp add: bs l)
  qed
qed

lemma uint_byte_of_nat: "c \<le> 255 \<Longrightarrow> uint (of_nat c :: byte) = int c"
  using unat_byte_of_nat_small [of c] by (simp add: uint_nat)

lemma chr_format_wire: "chr_format n = Inr c \<Longrightarrow> uint c = n"
  by (auto simp: chr_format_def uint_byte_of_int split: if_splits)

lemma encode_term_wire:
  "wf_term t \<Longrightarrow> encode_term h t = Inr bs \<Longrightarrow> decoded h t = Inr v \<Longrightarrow> wire h bs v"
proof (induction t arbitrary: bs v)
  case (PInt n)
  then show ?case by (auto intro: encode_int_wire)
next
  case (PFloat w)
  have "wire h (70 # be64 (unat w)) (PFloat (of_nat (be_val (be64 (unat w)))))"
    by (rule wire_wire_seq.new_float_ext) simp
  then show ?case using PFloat by (auto simp: float_bits_roundtrip)
next
  case (PAtom s)
  then show ?case by (auto intro: encode_atom_wire)
next
  case (PBitBinary s bits)
  from PBitBinary.prems(2) obtain b where
    l: "length s \<le> 4294967295" and b: "pack_B bits = Inr b" and
    bs: "bs = 77 # be32 (length s) @ b # s"
    by (auto simp: pack_I_def split: sum.splits if_splits)
  have u: "uint b = bits" using b by (auto simp: pack_B_def uint_byte_of_int split: if_splits)
  have "wire h (77 # be32 (length s) @ b # s) (PBitBinary s (uint b))"
    by (rule wire_wire_seq.bit_binary_ext [OF l])
  then show ?case using PBitBinary.prems(3) by (simp add: bs u)
next
  case (PStr s)
  then show ?case by (auto intro: encode_str_wire)
next
  case (PUnicode cs)
  have v: "v = PList (map (\<lambda>c. PInt (int c)) cs)" using PUnicode.prems(3) by simp
  consider (empty) "cs = []"
    | (str) "cs \<noteq> []" "length cs \<le> 65535 \<and> list_all (\<lambda>c. c \<le> 255) cs"
    | (lst) "cs \<noteq> []" "\<not> (length cs \<le> 65535 \<and> list_all (\<lambda>c. c \<le> 255) cs)"
    by blast
  then show ?case
  proof cases
    case empty
    then show ?thesis using PUnicode.prems(2) v by (auto simp: wire_wire_seq.nil_ext)
  next
    case str
    then have bs: "bs = 107 # be16 (length cs) @ map of_nat cs"
      using PUnicode.prems(2) by auto
    have "wire h (107 # be16 (length (map of_nat cs :: bytes)) @ map of_nat cs)
        (PList (map (\<lambda>b. PInt (uint b)) (map of_nat cs :: bytes)))"
      by (rule wire_wire_seq.string_ext) (simp add: str)
    then have a: "wire h (107 # be16 (length cs) @ map of_nat cs)
        (PList (map (\<lambda>b. PInt (uint b)) (map of_nat cs :: bytes)))"
      by (simp only: length_map)
    have m: "map (\<lambda>b. PInt (uint b)) (map of_nat cs :: bytes) = map (\<lambda>c. PInt (int c)) cs"
      using str(2) by (induction cs) (simp_all add: uint_byte_of_nat)
    show ?thesis using a by (simp only: bs v m)
  next
    case lst
    define ts where "ts = map (\<lambda>c. PInt (int c)) cs"
    have e: "encode_list ts (join (map (encode_term h) ts)) = Inr bs"
      using PUnicode.prems(2) lst by (simp add: ts_def comp_def)
    have nat: "list_all native ts" by (simp add: ts_def list_all_iff)
    have s: "sequence (map (decoded h) ts) = Inr ts"
      by (rule sequence_Inr) (auto simp: ts_def)
    have w: "wire_seq h b ts \<and> length ts = length ts"
      if "join (map (encode_term h) ts) = Inr b" for b
      by (rule join_wire_seq [OF _ that s]) (auto simp: ts_def intro: encode_int_wire)
    have "wire h bs (case (if length ts \<le> 65535 then string_bytes ts else None) of
                   Some sb \<Rightarrow> PList (map (\<lambda>b. PInt (uint b)) sb)
                 | None \<Rightarrow> PList ts)"
      by (rule encode_list_wire [OF _ e refl]) (use w in blast)
    moreover have "(case (if length ts \<le> 65535 then string_bytes ts else None) of
                   Some sb \<Rightarrow> PList (map (\<lambda>b. PInt (uint b)) sb)
                 | None \<Rightarrow> PList ts) = PList ts"
      using array_B_native [OF _ nat]
      by (auto simp: string_bytes_def split: option.splits if_splits)
    ultimately show ?thesis by (simp add: v ts_def)
  qed
next
  case (PBool b)
  have "length (if b then atom_true else atom_false) \<le> 255"
    by (simp add: atom_true_def atom_false_def)
  from encode_atom_wire [OF this, of bs h] PBool.prems(2)
  have "wire h bs (atom_image (if b then atom_true else atom_false))" by simp
  moreover have "atom_image (if b then atom_true else atom_false) = PBool b"
    by (simp add: atom_image_def atom_true_def atom_false_def)
  ultimately show ?case using PBool.prems(3) by simp
next
  case PNone
  have "wire h (100 # be16 (length atom_none) @ atom_none) (atom_image atom_none)"
    by (rule wire_wire_seq.atom_ext) (simp add: atom_none_def)
  moreover have "atom_image atom_none = PNone" "length atom_none = 4"
    by (simp_all add: atom_image_def atom_true_def atom_false_def atom_none_def)
  ultimately show ?case using PNone by auto
next
  case (PList ts)
  have ih: "\<forall>t\<in>set ts. \<forall>bs v. encode_term h t = Inr bs \<longrightarrow> decoded h t = Inr v \<longrightarrow> wire h bs v"
    using PList.IH PList.prems(1) by (auto simp: list_all_iff)
  define vs where "vs = (case sequence (map (decoded h) ts) of Inr vs \<Rightarrow> vs | Inl e \<Rightarrow> [])"
  have e: "encode_list ts (join (map (encode_term h) ts)) = Inr bs" using PList.prems(2) by simp
  have v: "v = (case (if length ts \<le> 65535 then string_bytes ts else None) of
                   Some sb \<Rightarrow> PList (map (\<lambda>b. PInt (uint b)) sb)
                 | None \<Rightarrow> PList vs)"
    using PList.prems(3) by (auto simp: vs_def split: option.splits sum.splits if_splits)
  have w: "wire_seq h b vs \<and> length vs = length ts"
    if n: "(if length ts \<le> 65535 then string_bytes ts else None) = None"
      and b: "join (map (encode_term h) ts) = Inr b" for b
  proof -
    from PList.prems(3) n have "sequence (map (decoded h) ts) = Inr vs"
      by (auto simp: vs_def split: sum.splits)
    from join_wire_seq [OF ih b this] show ?thesis .
  qed
  show ?case by (rule encode_list_wire [OF _ e v]) (use w in blast)
next
  case (PTuple ts)
  have ih: "\<forall>t\<in>set ts. \<forall>bs v. encode_term h t = Inr bs \<longrightarrow> decoded h t = Inr v \<longrightarrow> wire h bs v"
    using PTuple.IH PTuple.prems(1) by (auto simp: list_all_iff)
  from PTuple.prems(2) obtain header body where
    hd: "tuple_header (length ts) = Inr header" and
    b: "join (map (encode_term h) ts) = Inr body" and bs: "bs = header @ body"
    by (auto split: sum.splits)
  from PTuple.prems(3) obtain vs where
    s: "sequence (map (decoded h) ts) = Inr vs" and tv: "tuple_value h vs = Inr v"
    by (auto simp: tuple_value_def split: sum.splits)
  from join_wire_seq [OF ih b s] have w: "wire_seq h body vs" and l: "length vs = length ts"
    by simp_all
  show ?case
  proof (cases "length ts \<le> 255")
    case True
    then have "header = [104, of_nat (length vs)]" using hd by (simp add: tuple_header_def l)
    moreover have "wire h (104 # of_nat (length vs) # body) v"
      by (rule wire_wire_seq.small_tuple_ext [OF _ w tv]) (simp add: l True)
    ultimately show ?thesis by (simp add: bs)
  next
    case False
    then have "header = 105 # be32 (length vs)" and n: "length vs \<le> 4294967295"
      using hd by (auto simp: tuple_header_def l split: if_splits)
    moreover have "wire h (105 # be32 (length vs) @ body) v"
      by (rule wire_wire_seq.large_tuple_ext [OF n w tv])
    ultimately show ?thesis by (simp add: bs)
  qed
next
  case (PPid node ident serial creation)
  from PPid.prems(2) obtain nb c where
    n: "encode_term h node = Inr nb" and s: "length serial = 4" and
    c: "chr_format creation = Inr c" and bs: "bs = 103 # nb @ ident @ serial @ [c]"
    by (auto split: sum.splits if_splits)
  from PPid.prems(3) obtain node' where
    d: "decoded h node = Inr node'" and v: "v = PPid node' ident serial creation"
    by (auto split: sum.splits)
  have w: "wire h nb node'" using PPid.IH [OF _ n d] PPid.prems(1) by simp
  have "wire h (103 # nb @ ident @ serial @ [c]) (PPid node' ident serial (uint c))"
    by (rule wire_wire_seq.pid_ext [OF w _ s]) (use PPid.prems(1) in simp)
  then show ?case by (simp add: bs v chr_format_wire [OF c])
next
  case (PReference node ident creation)
  from PReference.prems(2) obtain nb c where
    n: "encode_term h node = Inr nb" and k: "length ident div 4 \<le> 65535" and
    c: "chr_format creation = Inr c" and
    bs: "bs = 114 # be16 (length ident div 4) @ nb @ c # ident"
    by (auto simp: pack_H_def split: sum.splits if_splits)
  from PReference.prems(3) obtain node' where
    d: "decoded h node = Inr node'" and v: "v = PReference node' ident creation"
    by (auto split: sum.splits)
  have w: "wire h nb node'" using PReference.IH [OF _ n d] PReference.prems(1) by simp
  have l: "length ident = 4 * (length ident div 4)" using PReference.prems(1) by auto
  have "wire h (114 # be16 (length ident div 4) @ nb @ c # ident)
      (PReference node' ident (uint c))"
    by (rule wire_wire_seq.new_reference_ext [OF w l k])
  then show ?case by (simp add: bs v chr_format_wire [OF c])
next
  case (PPort node ident creation)
  from PPort.prems(2) obtain nb c where
    n: "encode_term h node = Inr nb" and i: "length ident = 4" and
    c: "chr_format creation = Inr c" and bs: "bs = 102 # nb @ ident @ [c]"
    by (auto split: sum.splits if_splits)
  from PPort.prems(3) obtain node' where
    d: "decoded h node = Inr node'" and v: "v = PPort node' ident creation"
    by (auto split: sum.splits)
  have w: "wire h nb node'" using PPort.IH [OF _ n d] PPort.prems(1) by simp
  have "wire h (102 # nb @ ident @ [c]) (PPort node' ident (uint c))"
    by (rule wire_wire_seq.port_ext [OF w i])
  then show ?case by (simp add: bs v chr_format_wire [OF c])
next
  case (PExport m f a)
  from PExport.prems(2) obtain mb fb ab where
    e: "encode_term h m = Inr mb" "encode_term h f = Inr fb" "encode_term h a = Inr ab" and
    bs: "bs = 113 # mb @ fb @ ab"
    by (auto split: sum.splits)
  from PExport.prems(3) obtain m' f' a' where
    d: "decoded h m = Inr m'" "decoded h f = Inr f'" "decoded h a = Inr a'" and
    v: "v = PExport m' f' a'"
    by (auto split: sum.splits)
  have "wire h mb m'" "wire h fb f'" "wire h ab a'"
    using PExport.IH(1) [OF _ e(1) d(1)] PExport.IH(2) [OF _ e(2) d(2)]
      PExport.IH(3) [OF _ e(3) d(3)] PExport.prems(1) by simp_all
  then have "wire h (113 # mb @ fb @ ab) (PExport m' f' a')"
    by (rule wire_wire_seq.export_ext)
  then show ?case by (simp add: bs v)
next
  case (PObject obj)
  from PObject.prems(2) obtain data where
    dm: "dumps h obj = Some data" and l: "length data \<le> 4294967295" and
    bs: "bs = 104 # 2 # (100 # be16 13 @ python_pickle) @ (109 # be32 (length data) @ data) @ []"
    by (auto simp: tuple_header_def encode_atom_def encode_str_def pack_H_def
        python_pickle_not_reserved split: option.splits sum.splits if_splits)
  have v: "loads h (PStr data) = Inr v" using PObject.prems(3) dm by simp
  have a: "wire h (100 # be16 (length python_pickle) @ python_pickle) (atom_image python_pickle)"
    by (rule wire_wire_seq.atom_ext) (simp add: python_pickle_not_reserved)
  have ai: "atom_image python_pickle = PAtom python_pickle"
    by (simp add: atom_image_def python_pickle_not_reserved)
  have b: "wire h (109 # be32 (length data) @ data) (PStr data)"
    by (rule wire_wire_seq.binary_ext [OF l])
  have w: "wire_seq h ((100 # be16 13 @ python_pickle) @ (109 # be32 (length data) @ data) @ [])
      [PAtom python_pickle, PStr data]"
    using a b
    by (intro wire_wire_seq.seq_cons wire_wire_seq.seq_nil)
       (simp_all add: ai python_pickle_not_reserved)
  have tv: "tuple_value h [PAtom python_pickle, PStr data] = Inr v"
    using v by (simp add: tuple_value_def)
  have "wire h (104 # of_nat (length [PAtom python_pickle, PStr data]) #
      (100 # be16 13 @ python_pickle) @ (109 # be32 (length data) @ data) @ []) v"
    by (rule wire_wire_seq.small_tuple_ext [OF _ w tv]) simp
  then show ?case by (simp add: bs)
qed

lemma encode_cases:
  assumes "encode h t c = Inr f"
  obtains (plain) payload where "encode_term h t = Inr payload" "f = 131 # payload"
  | (deflated) payload z where "encode_term h t = Inr payload"
      "compress h payload (level c) = Inr z" "length payload \<le> 4294967295"
      "f = 131 # 80 # be32 (length payload) @ z"
  using assms
  by (auto simp: encode_def pack_I_def split: sum.splits if_splits)

lemma encoded_frame_valid:
  assumes "wf_term t" and "encode h t c = Inr f" and "decoded h t = Inr v"
    and z: "\<And>x lvl z. compress h x lvl = Inr z \<Longrightarrow> inflates h z x"
  shows "valid_frame h f v"
  using assms(2)
proof (cases rule: encode_cases)
  case (plain payload)
  have "wire h payload v" by (rule encode_term_wire [OF assms(1) plain(1) assms(3)])
  then show ?thesis unfolding plain(2) by (rule valid_frame.uncompressed)
next
  case (deflated payload z)
  have "wire h payload v" by (rule encode_term_wire [OF assms(1) deflated(1) assms(3)])
  then show ?thesis unfolding deflated(4)
    by (rule valid_frame.compressed [OF _ deflated(3) z [OF deflated(2)]])
qed

end
